theory Spec2Isabelle
  imports Complex_Main
begin

section \<open>JavaScript values used by GeometryFilters.js\<close>

text \<open>
  A JavaScript array is a list of slots; a slot holding \<open>None\<close> is a hole or the value
  \<open>undefined\<close> (both read as \<open>undefined\<close>). Reading outside the array yields
  \<open>undefined\<close>; writing at or beyond the length extends the array with holes; writing
  under a negative key sets an ordinary property and leaves elements and length alone.
\<close>

type_synonym 'a jsarray = "'a option list"

definition js_get :: "'a jsarray \<Rightarrow> int \<Rightarrow> 'a option" where
  "js_get xs i = (if 0 \<le> i \<and> i < int (length xs) then xs ! nat i else None)"

definition js_set :: "'a jsarray \<Rightarrow> int \<Rightarrow> 'a option \<Rightarrow> 'a jsarray" where
  "js_set xs i v =
     (if i < 0 then xs
      else if i < int (length xs) then xs[nat i := v]
      else xs @ replicate (nat i - length xs) None @ [v])"

text \<open>The errors a call can end in: the module's own \<open>DeveloperError\<close> (with its
  message), the engine's \<open>TypeError\<close> for a property access on \<open>undefined\<close>, and the
  \<open>RuntimeError\<close> of the matrix collaborator for a matrix without an inverse.\<close>

datatype error = DeveloperError string | TypeError | RuntimeError

definition bindE :: "error + 'a \<Rightarrow> ('a \<Rightarrow> error + 'b) \<Rightarrow> error + 'b" where
  "bindE r f = (case r of Inl e \<Rightarrow> Inl e | Inr x \<Rightarrow> f x)"

fun isDeveloperError :: "error + 'a \<Rightarrow> bool" where
  "isDeveloperError (Inl (DeveloperError msg)) = True"
| "isDeveloperError _ = False"

section \<open>Data model\<close>

datatype PrimitiveType =
  POINTS | LINES | LINE_LOOP | LINE_STRIP | TRIANGLES | TRIANGLE_STRIP | TRIANGLE_FAN

datatype ComponentDatatype = BYTE | UNSIGNED_BYTE | SHORT | UNSIGNED_SHORT | FLOAT

text \<open>An attribute as the filters read it. \<open>attrValues\<close> is the field \<open>values\<close>; the
  filters test it for presence, so it is optional. \<open>normalizeFlag\<close> is the field
  \<open>normalize\<close>, which object literals in the module leave undefined.\<close>

record GeometryAttribute =
  componentDatatype :: ComponentDatatype
  componentsPerAttribute :: int
  normalizeFlag :: "bool option"
  attrValues :: "real jsarray option"

text \<open>A vector read out of an array has an undefined component where the slot was.\<close>

type_synonym Cartesian3 = "real option \<times> real option \<times> real option"

record BoundingSphere =
  center :: Cartesian3
  radius :: real

text \<open>The attribute table is an association list in insertion order, the order in which
  \<open>for (name in attributes)\<close> enumerates it; names are distinct in any JavaScript object.\<close>

record Geometry =
  attributes :: "(string \<times> GeometryAttribute) list"
  indexList :: "int jsarray option"
  primitiveType :: PrimitiveType
  boundingSphere :: "BoundingSphere option"

text \<open>Modelled from the spec: Matrix3 and Matrix4 live in files of their own, which
  GeometryFilters.js only imports. A matrix is the list of its entries in column-major
  order; \<open>Matrix4.IDENTITY\<close> is the unit matrix and \<open>equals\<close> is the
  identity-equality of the vector/matrix collaborator, entry by entry.\<close>

type_synonym Matrix3 = "real list"

type_synonym Matrix4 = "real list"

definition Matrix4_IDENTITY :: Matrix4 where
  "Matrix4_IDENTITY = [1, 0, 0, 0,  0, 1, 0, 0,  0, 0, 1, 0,  0, 0, 0, 1]"

definition Matrix4_equals :: "Matrix4 \<Rightarrow> Matrix4 \<Rightarrow> bool" where
  "Matrix4_equals left right \<longleftrightarrow> left = right"

record GeometryInstance =
  geometry :: Geometry
  modelMatrix :: Matrix4

text \<open>The arithmetic of the vector/matrix collaborator is outside the module; the filters
  take it as given.\<close>

record Collaborators =
  Matrix4_multiplyByPoint :: "Matrix4 \<Rightarrow> Cartesian3 \<Rightarrow> Cartesian3"
  Matrix3_multiplyByVector :: "Matrix3 \<Rightarrow> Cartesian3 \<Rightarrow> Cartesian3"
  Matrix4_inverse :: "Matrix4 \<Rightarrow> error + Matrix4"
  Matrix4_transpose :: "Matrix4 \<Rightarrow> Matrix4"
  Matrix4_getRotation :: "Matrix4 \<Rightarrow> Matrix3"

section \<open>toWireframe\<close>

definition addTriangle ::
  "int jsarray \<Rightarrow> int option \<Rightarrow> int option \<Rightarrow> int option \<Rightarrow> int jsarray" where
  "addTriangle lines i0 i1 i2 = lines @ [i0, i1] @ [i1, i2] @ [i2, i0]"

function trianglesToLines_loop :: "int jsarray \<Rightarrow> nat \<Rightarrow> int jsarray \<Rightarrow> int jsarray" where
  "trianglesToLines_loop triangles i lines =
     (if i < length triangles
      then trianglesToLines_loop triangles (i + 3)
             (addTriangle lines (js_get triangles (int i)) (js_get triangles (int i + 1))
                (js_get triangles (int i + 2)))
      else lines)"
  by pat_completeness auto
termination
  by (relation "measure (\<lambda>(triangles, i, lines). length triangles - i)") auto

declare trianglesToLines_loop.simps [simp del]

definition trianglesToLines :: "int jsarray \<Rightarrow> int jsarray" where
  "trianglesToLines triangles = trianglesToLines_loop triangles 0 []"

function triangleStripToLines_loop :: "int jsarray \<Rightarrow> nat \<Rightarrow> int jsarray \<Rightarrow> int jsarray" where
  "triangleStripToLines_loop triangles i lines =
     (if i < length triangles
      then triangleStripToLines_loop triangles (i + 1)
             (addTriangle lines (js_get triangles (int i - 1)) (js_get triangles (int i))
                (js_get triangles (int i - 2)))
      else lines)"
  by pat_completeness auto
termination
  by (relation "measure (\<lambda>(triangles, i, lines). length triangles - i)") auto

declare triangleStripToLines_loop.simps [simp del]

definition triangleStripToLines :: "int jsarray \<Rightarrow> int jsarray" where
  "triangleStripToLines triangles =
     (if length triangles \<ge> 3
      then triangleStripToLines_loop triangles 3
             (addTriangle [] (js_get triangles 0) (js_get triangles 1) (js_get triangles 2))
      else [])"

function triangleFanToLines_loop ::
  "int jsarray \<Rightarrow> int option \<Rightarrow> nat \<Rightarrow> nat \<Rightarrow> int jsarray \<Rightarrow> int jsarray" where
  "triangleFanToLines_loop triangles base count i lines =
     (if i < count
      then triangleFanToLines_loop triangles base count (i + 1)
             (addTriangle lines base (js_get triangles (int i)) (js_get triangles (int i + 1)))
      else lines)"
  by pat_completeness auto
termination
  by (relation "measure (\<lambda>(triangles, base, count, i, lines). count - i)") auto

declare triangleFanToLines_loop.simps [simp del]

definition triangleFanToLines :: "int jsarray \<Rightarrow> int jsarray" where
  "triangleFanToLines triangles =
     (if length triangles > 0
      then triangleFanToLines_loop triangles (js_get triangles 0) (length triangles - 1) 1 []
      else [])"

definition toWireframe :: "Geometry option \<Rightarrow> Geometry option" where
  "toWireframe mesh =
     (case mesh of
        None \<Rightarrow> None
      | Some m \<Rightarrow>
          (case indexList m of
             None \<Rightarrow> Some m
           | Some indices \<Rightarrow>
               Some ((case primitiveType m of
                        TRIANGLES \<Rightarrow> m\<lparr>indexList := Some (trianglesToLines indices)\<rparr>
                      | TRIANGLE_STRIP \<Rightarrow> m\<lparr>indexList := Some (triangleStripToLines indices)\<rparr>
                      | TRIANGLE_FAN \<Rightarrow> m\<lparr>indexList := Some (triangleFanToLines indices)\<rparr>
                      | _ \<Rightarrow> m)
                     \<lparr>primitiveType := LINES\<rparr>)))"

section \<open>mapAttributeIndices\<close>

text \<open>\<open>indices\<close> is only looked up, so it is a map from names to slots; \<open>map\<close> is
  enumerated, so it is an association list. The result is an object keyed by slot: a key
  bound to \<open>None\<close> is an own property whose value is \<open>undefined\<close>, a key outside the
  domain is no property at all.\<close>

definition mapAttributeIndices ::
  "(string \<rightharpoonup> int) option \<Rightarrow> (string \<times> int) list option \<Rightarrow> (int \<rightharpoonup> int option)" where
  "mapAttributeIndices indices map_arg =
     (case indices of
        None \<Rightarrow> Map.empty
      | Some ind \<Rightarrow>
          (case map_arg of
             None \<Rightarrow> Map.empty
           | Some mp \<Rightarrow>
               fold (\<lambda>(name, slot) mappedIndices. mappedIndices(slot \<mapsto> ind name))
                 mp Map.empty))"

section \<open>reorderForPreVertexCache\<close>

text \<open>Modelled from the spec: \<open>Geometry.computeNumberOfVertices\<close> lives in Geometry.js,
  which is not part of the sources at hand. The specification gives an attribute's vertex
  count as \<open>values.length / componentsPerAttribute\<close>, requires the length to be a multiple
  of the component count and all attributes of a geometry to agree on the count, and lists
  a violation of either as a structural error. Attributes without \<open>values\<close> are skipped,
  as everywhere in the filters; a geometry without any vertex data has no vertices.\<close>

definition attributeVertexCount :: "GeometryAttribute \<Rightarrow> real jsarray \<Rightarrow> error + int" where
  "attributeVertexCount attr vals =
     (if componentsPerAttribute attr \<le> 0 \<or> int (length vals) mod componentsPerAttribute attr \<noteq> 0
      then Inl (DeveloperError ''values.length must be a multiple of componentsPerAttribute.'')
      else Inr (int (length vals) div componentsPerAttribute attr))"

fun computeNumberOfVertices_loop ::
  "(string \<times> GeometryAttribute) list \<Rightarrow> int option \<Rightarrow> error + int" where
  "computeNumberOfVertices_loop [] numberOfVertices =
     Inr (case numberOfVertices of None \<Rightarrow> 0 | Some n \<Rightarrow> n)"
| "computeNumberOfVertices_loop ((property, attr) # rest) numberOfVertices =
     (case attrValues attr of
        None \<Rightarrow> computeNumberOfVertices_loop rest numberOfVertices
      | Some vals \<Rightarrow>
          (case attributeVertexCount attr vals of
             Inl e \<Rightarrow> Inl e
           | Inr num \<Rightarrow>
               if numberOfVertices \<noteq> None \<and> numberOfVertices \<noteq> Some num
               then Inl (DeveloperError
                 ''All mesh attribute lists must have the same number of attributes.'')
               else computeNumberOfVertices_loop rest (Some num)))"

definition computeNumberOfVertices :: "Geometry \<Rightarrow> error + int" where
  "computeNumberOfVertices mesh = computeNumberOfVertices_loop (attributes mesh) None"

text \<open>An array subscripted by a value that may be \<open>undefined\<close>: the key \<open>undefined\<close>
  (or \<open>NaN\<close>) names no element.\<close>

definition js_get_at :: "'a jsarray \<Rightarrow> int option \<Rightarrow> 'a option" where
  "js_get_at xs k = (case k of None \<Rightarrow> None | Some i \<Rightarrow> js_get xs i)"

definition js_set_at :: "'a jsarray \<Rightarrow> int option \<Rightarrow> 'a option \<Rightarrow> 'a jsarray" where
  "js_set_at xs k v = (case k of None \<Rightarrow> xs | Some i \<Rightarrow> js_set xs i v)"

text \<open>The loop that builds the cross reference and rewrites the indices.
  \<open>intoIndicesIn\<close> and \<open>intoIndicesOut\<close> advance together and are the one counter
  \<open>into\<close>. The result is the final cross reference and \<open>indicesOut\<close>.\<close>

function reorderIndices_loop ::
  "int \<Rightarrow> int jsarray \<Rightarrow> nat \<Rightarrow> int jsarray \<Rightarrow> int jsarray \<Rightarrow> int
   \<Rightarrow> error + (int jsarray \<times> int jsarray)" where
  "reorderIndices_loop numVertices indicesIn into indexCrossReferenceOldToNew indicesOut nextIndex =
     (if into < length indicesIn
      then
        (let tempIndex = js_get_at indexCrossReferenceOldToNew (js_get indicesIn (int into))
         in if tempIndex \<noteq> Some (- 1)
            then reorderIndices_loop numVertices indicesIn (into + 1)
                   indexCrossReferenceOldToNew
                   (js_set indicesOut (int into) tempIndex) nextIndex
            else
              (let tempIndex = js_get indicesIn (int into)
               in if (case tempIndex of None \<Rightarrow> False | Some t \<Rightarrow> t \<ge> numVertices)
                  then Inl (DeveloperError
                    ''Input indices contains a value greater than or equal to the number of vertices'')
                  else reorderIndices_loop numVertices indicesIn (into + 1)
                         (js_set_at indexCrossReferenceOldToNew tempIndex (Some nextIndex))
                         (js_set indicesOut (int into) (Some nextIndex)) (nextIndex + 1)))
      else Inr (indexCrossReferenceOldToNew, indicesOut))"
  by pat_completeness auto
termination
  by (relation "measure (\<lambda>(numVertices, indicesIn, into, xref, indicesOut, nextIndex).
        length indicesIn - into)") auto

declare reorderIndices_loop.simps [simp del]

text \<open>The inner \<open>for\<close> loop that copies the components of one vertex, and the outer
  \<open>while\<close> loop over the vertices.\<close>

definition reorderVertex ::
  "int \<Rightarrow> real jsarray \<Rightarrow> int \<Rightarrow> int option \<Rightarrow> real jsarray \<Rightarrow> real jsarray" where
  "reorderVertex numComponents elementsIn intoElementsIn temp elementsOut =
     fold (\<lambda>i out. js_set_at out (map_option (\<lambda>t. numComponents * t + int i) temp)
                     (js_get elementsIn (numComponents * intoElementsIn + int i)))
       [0 ..< nat numComponents] elementsOut"

function reorderVertices_loop ::
  "int \<Rightarrow> int jsarray \<Rightarrow> int \<Rightarrow> real jsarray \<Rightarrow> nat \<Rightarrow> real jsarray \<Rightarrow> real jsarray" where
  "reorderVertices_loop numVertices indexCrossReferenceOldToNew numComponents elementsIn
     intoElementsIn elementsOut =
     (if int intoElementsIn < numVertices
      then reorderVertices_loop numVertices indexCrossReferenceOldToNew numComponents elementsIn
             (intoElementsIn + 1)
             (reorderVertex numComponents elementsIn (int intoElementsIn)
                (js_get indexCrossReferenceOldToNew (int intoElementsIn)) elementsOut)
      else elementsOut)"
  by pat_completeness auto
termination
  by (relation "measure (\<lambda>(numVertices, xref, numComponents, elementsIn, into, out).
        nat numVertices - into)") auto

declare reorderVertices_loop.simps [simp del]

definition reorderAttribute ::
  "int \<Rightarrow> int jsarray \<Rightarrow> GeometryAttribute \<Rightarrow> GeometryAttribute" where
  "reorderAttribute numVertices indexCrossReferenceOldToNew attr =
     (case attrValues attr of
        None \<Rightarrow> attr
      | Some elementsIn \<Rightarrow>
          attr\<lparr>attrValues := Some (reorderVertices_loop numVertices indexCrossReferenceOldToNew
                   (componentsPerAttribute attr) elementsIn 0 [])\<rparr>)"

definition reorderForPreVertexCache :: "Geometry option \<Rightarrow> error + Geometry option" where
  "reorderForPreVertexCache mesh =
     (case mesh of
        None \<Rightarrow> Inr None
      | Some m \<Rightarrow>
          (case computeNumberOfVertices m of
             Inl e \<Rightarrow> Inl e
           | Inr numVertices \<Rightarrow>
               (let xref0 = replicate (nat numVertices) (Some (- 1)) in
                case (case indexList m of
                        None \<Rightarrow> Inr (xref0, m)
                      | Some indicesIn \<Rightarrow>
                          (case reorderIndices_loop numVertices indicesIn 0 xref0 [] 0 of
                             Inl e \<Rightarrow> Inl e
                           | Inr (xref, indicesOut) \<Rightarrow>
                               Inr (xref, m\<lparr>indexList := Some indicesOut\<rparr>))) of
                  Inl e \<Rightarrow> Inl e
                | Inr (xref, m') \<Rightarrow>
                    Inr (Some (m'\<lparr>attributes :=
                      map (\<lambda>(property, attr). (property, reorderAttribute numVertices xref attr))
                        (attributes m')\<rparr>)))))"

section \<open>fitToUnsignedShortIndices\<close>

definition copyAttributesDescriptions ::
  "(string \<times> GeometryAttribute) list \<Rightarrow> (string \<times> GeometryAttribute) list" where
  "copyAttributesDescriptions attrs =
     map (\<lambda>(attribute, attr).
            (attribute, \<lparr>componentDatatype = componentDatatype attr,
                         componentsPerAttribute = componentsPerAttribute attr,
                         normalizeFlag = normalizeFlag attr,
                         attrValues = Some []\<rparr>))
       (filter (\<lambda>(attribute, attr). attrValues attr \<noteq> None) attrs)"

text \<open>The inner loop of \<open>copyVertex\<close>: the components of one vertex are pushed onto the
  destination values. An index \<open>undefined\<close> makes every subscript \<open>NaN\<close>.\<close>

definition pushVertex ::
  "int \<Rightarrow> real jsarray \<Rightarrow> int option \<Rightarrow> real jsarray \<Rightarrow> real jsarray" where
  "pushVertex numComponents sourceValues index destValues =
     fold (\<lambda>k vals. vals @ [js_get_at sourceValues
                               (map_option (\<lambda>i. i * numComponents + int k) index)])
       [0 ..< nat numComponents] destValues"

definition copyVertex ::
  "(string \<times> GeometryAttribute) list \<Rightarrow> (string \<times> GeometryAttribute) list \<Rightarrow> int option
   \<Rightarrow> (string \<times> GeometryAttribute) list" where
  "copyVertex destinationAttributes sourceAttributes index =
     fold (\<lambda>(attribute, attr) dest.
             case attrValues attr of
               None \<Rightarrow> dest
             | Some sourceValues \<Rightarrow>
                 map (\<lambda>(name, d).
                        if name = attribute
                        then (name, d\<lparr>attrValues :=
                                map_option (pushVertex (componentsPerAttribute attr)
                                              sourceValues index) (attrValues d)\<rparr>)
                        else (name, d)) dest)
       sourceAttributes destinationAttributes"

definition createMesh ::
  "(string \<times> GeometryAttribute) list \<Rightarrow> PrimitiveType \<Rightarrow> int jsarray \<Rightarrow> Geometry" where
  "createMesh attrs type indices =
     \<lparr>attributes = attrs, indexList = Some indices, primitiveType = type,
      boundingSphere = None\<rparr>"

text \<open>The state of the loop over the triangles. \<open>oldToNewIndex\<close> is an array used as a
  table: its keys are the old indices, \<open>None\<close> being the key \<open>undefined\<close>. Each sealed
  geometry is kept together with the table that was in force when it was sealed; the
  source drops the table, and so does \<open>fitToUnsignedShortIndices\<close> below.\<close>

record FitState =
  oldToNewIndex :: "int option \<rightharpoonup> int"
  newIndices :: "int jsarray"
  currentIndex :: int
  newAttributes :: "(string \<times> GeometryAttribute) list"
  geometries :: "((int option \<rightharpoonup> int) \<times> Geometry) list"

text \<open>One corner of a triangle: the new index of \<open>x\<close>, handed out and its vertex copied
  when \<open>x\<close> is not yet in the table.\<close>

definition remapCorner ::
  "(string \<times> GeometryAttribute) list \<Rightarrow> int option \<Rightarrow> FitState \<Rightarrow> int \<times> FitState" where
  "remapCorner sourceAttributes x st =
     (case oldToNewIndex st x of
        Some i \<Rightarrow> (i, st)
      | None \<Rightarrow>
          (currentIndex st,
           st\<lparr>currentIndex := currentIndex st + 1,
              oldToNewIndex := (oldToNewIndex st)(x \<mapsto> currentIndex st),
              newAttributes := copyVertex (newAttributes st) sourceAttributes x\<rparr>))"

definition sixtyFourK :: int where
  "sixtyFourK = 64 * 1024"

definition sealGeometry :: "Geometry \<Rightarrow> FitState \<Rightarrow> FitState" where
  "sealGeometry mesh st =
     st\<lparr>geometries := geometries st @
           [(oldToNewIndex st,
             createMesh (newAttributes st) (primitiveType mesh) (newIndices st))],
        oldToNewIndex := Map.empty,
        newIndices := [],
        currentIndex := 0,
        newAttributes := copyAttributesDescriptions (attributes mesh)\<rparr>"

definition fitTriangle :: "Geometry \<Rightarrow> int jsarray \<Rightarrow> nat \<Rightarrow> FitState \<Rightarrow> FitState" where
  "fitTriangle mesh originalIndices j st =
     (let x0 = js_get originalIndices (int j);
          x1 = js_get originalIndices (int j + 1);
          x2 = js_get originalIndices (int j + 2)
      in case remapCorner (attributes mesh) x0 st of (i0, st) \<Rightarrow>
         case remapCorner (attributes mesh) x1 st of (i1, st) \<Rightarrow>
         case remapCorner (attributes mesh) x2 st of (i2, st) \<Rightarrow>
           (let st = st\<lparr>newIndices := newIndices st @ [Some i0] @ [Some i1] @ [Some i2]\<rparr>
            in if currentIndex st + 3 > sixtyFourK then sealGeometry mesh st else st))"

function fit_loop :: "Geometry \<Rightarrow> int jsarray \<Rightarrow> nat \<Rightarrow> FitState \<Rightarrow> FitState" where
  "fit_loop mesh originalIndices j st =
     (if j < length originalIndices
      then fit_loop mesh originalIndices (j + 3) (fitTriangle mesh originalIndices j st)
      else st)"
  by pat_completeness auto
termination
  by (relation "measure (\<lambda>(mesh, originalIndices, j, st). length originalIndices - j)") auto

declare fit_loop.simps [simp del]

definition fitToUnsignedShortIndices_chunks ::
  "Geometry option \<Rightarrow> error + ((int option \<rightharpoonup> int) \<times> Geometry) list" where
  "fitToUnsignedShortIndices_chunks mesh_arg =
     (case mesh_arg of
        None \<Rightarrow> Inr []
      | Some mesh \<Rightarrow>
          if primitiveType mesh \<noteq> TRIANGLES
          then Inl (DeveloperError ''mesh.primitiveType must equal to PrimitiveType.TRIANGLES.'')
          else
            bindE (computeNumberOfVertices mesh) (\<lambda>numberOfVertices.
              case indexList mesh of
                Some originalIndices \<Rightarrow>
                  if numberOfVertices > sixtyFourK
                  then
                    (let st = fit_loop mesh originalIndices 0
                                \<lparr>oldToNewIndex = Map.empty, newIndices = [], currentIndex = 0,
                                 newAttributes = copyAttributesDescriptions (attributes mesh),
                                 geometries = []\<rparr>
                     in Inr (if length (newIndices st) \<noteq> 0
                             then geometries (sealGeometry mesh st)
                             else geometries st))
                  else Inr [(id, mesh)]
              | None \<Rightarrow> Inr [(id, mesh)]))"

definition fitToUnsignedShortIndices :: "Geometry option \<Rightarrow> error + Geometry list" where
  "fitToUnsignedShortIndices mesh = map_sum id (map snd) (fitToUnsignedShortIndices_chunks mesh)"

section \<open>computeNormal\<close>

text \<open>The vector arithmetic computeNormal calls, taken as given.\<close>

record Cartesian3Ops =
  Cartesian3_subtract :: "Cartesian3 \<Rightarrow> Cartesian3 \<Rightarrow> Cartesian3"
  Cartesian3_cross :: "Cartesian3 \<Rightarrow> Cartesian3 \<Rightarrow> Cartesian3"
  Cartesian3_add :: "Cartesian3 \<Rightarrow> Cartesian3 \<Rightarrow> Cartesian3"
  Cartesian3_normalize :: "Cartesian3 \<Rightarrow> Cartesian3"

record VertexNormalData =
  indexOffset :: nat
  count :: nat
  currentCount :: nat

text \<open>\<open>normalsPerVertex[i]\<close> for an index read from the index list: it is an object
  exactly when the index is a number within the array.\<close>

definition lookupVertex :: "VertexNormalData list \<Rightarrow> int option \<Rightarrow> nat option" where
  "lookupVertex normalsPerVertex index =
     (case index of
        None \<Rightarrow> None
      | Some i \<Rightarrow> if 0 \<le> i \<and> i < int (length normalsPerVertex) then Some (nat i) else None)"

text \<open>\<open>normalsPerVertex[i0].count++\<close>; a property access on \<open>undefined\<close> is a
  TypeError.\<close>

definition incrementCount ::
  "VertexNormalData list \<Rightarrow> int option \<Rightarrow> error + VertexNormalData list" where
  "incrementCount normalsPerVertex index =
     (case lookupVertex normalsPerVertex index of
        None \<Rightarrow> Inl TypeError
      | Some v \<Rightarrow>
          Inr (normalsPerVertex[v := (normalsPerVertex ! v)
                 \<lparr>count := count (normalsPerVertex ! v) + 1\<rparr>]))"

definition readVertex :: "real jsarray \<Rightarrow> int option \<Rightarrow> Cartesian3" where
  "readVertex vertices index =
     (js_get_at vertices (map_option (\<lambda>i. i * 3) index),
      js_get_at vertices (map_option (\<lambda>i. i * 3 + 1) index),
      js_get_at vertices (map_option (\<lambda>i. i * 3 + 2) index))"

text \<open>The first loop over the triangles: the counts per vertex and the face normals.\<close>

function countTriangles_loop ::
  "Cartesian3Ops \<Rightarrow> real jsarray \<Rightarrow> int jsarray \<Rightarrow> nat \<Rightarrow> VertexNormalData list
   \<Rightarrow> Cartesian3 list \<Rightarrow> error + (VertexNormalData list \<times> Cartesian3 list)" where
  "countTriangles_loop ops vertices indices i normalsPerVertex normalsPerTriangle =
     (if i < length indices
      then
        (let i0 = js_get indices (int i);
             i1 = js_get indices (int i + 1);
             i2 = js_get indices (int i + 2);
             v0 = readVertex vertices i0;
             v1 = readVertex vertices i1;
             v2 = readVertex vertices i2
         in bindE (incrementCount normalsPerVertex i0) (\<lambda>normalsPerVertex.
            bindE (incrementCount normalsPerVertex i1) (\<lambda>normalsPerVertex.
            bindE (incrementCount normalsPerVertex i2) (\<lambda>normalsPerVertex.
              (let v1 = Cartesian3_subtract ops v1 v0;
                   v2 = Cartesian3_subtract ops v2 v0
               in countTriangles_loop ops vertices indices (i + 3) normalsPerVertex
                    (normalsPerTriangle @ [Cartesian3_cross ops v1 v2]))))))
      else Inr (normalsPerVertex, normalsPerTriangle))"
  by pat_completeness auto
termination
  by (relation "measure (\<lambda>(ops, vertices, indices, i, npv, npt). length indices - i)") auto

declare countTriangles_loop.simps [simp del]

text \<open>The loop that turns the counts into offsets.\<close>

definition assignOffsets :: "VertexNormalData list \<Rightarrow> VertexNormalData list" where
  "assignOffsets normalsPerVertex =
     fst (fold (\<lambda>i (npv, offset).
                  (npv[i := (npv ! i)\<lparr>indexOffset := indexOffset (npv ! i) + offset\<rparr>],
                   offset + count (npv ! i)))
            [0 ..< length normalsPerVertex] (normalsPerVertex, 0))"

text \<open>The second loop over the triangles: triangle \<open>j\<close> is entered in the list of each
  of its corners.\<close>

definition placeTriangle ::
  "nat \<Rightarrow> int option \<Rightarrow> VertexNormalData list \<times> nat jsarray
   \<Rightarrow> error + (VertexNormalData list \<times> nat jsarray)" where
  "placeTriangle j index = (\<lambda>(normalsPerVertex, normalIndices).
     case lookupVertex normalsPerVertex index of
       None \<Rightarrow> Inl TypeError
     | Some v \<Rightarrow>
         (let vertexNormalData = normalsPerVertex ! v;
              index = indexOffset vertexNormalData + currentCount vertexNormalData
          in Inr (normalsPerVertex[v := vertexNormalData
                    \<lparr>currentCount := currentCount vertexNormalData + 1\<rparr>],
                  js_set normalIndices (int index) (Some j))))"

function placeTriangles_loop ::
  "int jsarray \<Rightarrow> nat \<Rightarrow> nat \<Rightarrow> VertexNormalData list \<times> nat jsarray
   \<Rightarrow> error + (VertexNormalData list \<times> nat jsarray)" where
  "placeTriangles_loop indices i j st =
     (if i < length indices
      then bindE (placeTriangle j (js_get indices (int i)) st) (\<lambda>st.
           bindE (placeTriangle j (js_get indices (int i + 1)) st) (\<lambda>st.
           bindE (placeTriangle j (js_get indices (int i + 2)) st) (\<lambda>st.
             placeTriangles_loop indices (i + 3) (j + 1) st)))
      else Inr st)"
  by pat_completeness auto
termination
  by (relation "measure (\<lambda>(indices, i, j, st). length indices - i)") auto

declare placeTriangles_loop.simps [simp del]

text \<open>The normal of one vertex with at least one triangle: the sum of the face normals in
  its list, normalized. A slot of the list that names no face normal hands \<open>undefined\<close> to
  the collaborator, which fails on it.\<close>

definition sumNormals ::
  "Cartesian3Ops \<Rightarrow> Cartesian3 list \<Rightarrow> nat jsarray \<Rightarrow> VertexNormalData \<Rightarrow> error + Cartesian3" where
  "sumNormals ops normalsPerTriangle normalIndices vertexNormalData =
     fold (\<lambda>j acc.
             bindE acc (\<lambda>normal.
               case js_get normalIndices (int (indexOffset vertexNormalData + j)) of
                 None \<Rightarrow> Inl TypeError
               | Some t \<Rightarrow>
                   if t < length normalsPerTriangle
                   then Inr (Cartesian3_add ops normal (normalsPerTriangle ! t))
                   else Inl TypeError))
       [0 ..< count vertexNormalData] (Inr (Some 0, Some 0, Some 0))"

definition writeNormal :: "real jsarray \<Rightarrow> nat \<Rightarrow> Cartesian3 \<Rightarrow> real jsarray" where
  "writeNormal normalValues i3 = (\<lambda>(x, y, z).
     js_set (js_set (js_set normalValues (int i3) x) (int i3 + 1) y) (int i3 + 2) z)"

fun writeNormals_loop ::
  "Cartesian3Ops \<Rightarrow> Cartesian3 list \<Rightarrow> nat jsarray \<Rightarrow> VertexNormalData list \<Rightarrow> nat list
   \<Rightarrow> real jsarray \<Rightarrow> error + real jsarray" where
  "writeNormals_loop ops normalsPerTriangle normalIndices normalsPerVertex [] normalValues =
     Inr normalValues"
| "writeNormals_loop ops normalsPerTriangle normalIndices normalsPerVertex (i # rest) normalValues =
     (let vertexNormalData = normalsPerVertex ! i in
      if count vertexNormalData > 0
      then bindE (sumNormals ops normalsPerTriangle normalIndices vertexNormalData) (\<lambda>normal.
             writeNormals_loop ops normalsPerTriangle normalIndices normalsPerVertex rest
               (writeNormal normalValues (i * 3) (Cartesian3_normalize ops normal)))
      else writeNormals_loop ops normalsPerTriangle normalIndices normalsPerVertex rest
             (writeNormal normalValues (i * 3) (Some 0, Some 0, Some 1)))"

text \<open>The attribute \<open>normal\<close> is created, with an array of holes, when the mesh has
  none; its values are then written in place.\<close>

definition ensureNormal ::
  "nat \<Rightarrow> (string \<times> GeometryAttribute) list \<Rightarrow> (string \<times> GeometryAttribute) list" where
  "ensureNormal numVertices attrs =
     (case map_of attrs ''normal'' of
        None \<Rightarrow> attrs @ [(''normal'',
                   \<lparr>componentDatatype = FLOAT, componentsPerAttribute = 3, normalizeFlag = None,
                    attrValues = Some (replicate (numVertices * 3) None)\<rparr>)]
      | Some attribute \<Rightarrow> attrs)"

definition computeNormal :: "Cartesian3Ops \<Rightarrow> Geometry option \<Rightarrow> error + Geometry" where
  "computeNormal ops mesh_arg =
     (case mesh_arg of
        None \<Rightarrow> Inl (DeveloperError ''mesh is required.'')
      | Some mesh \<Rightarrow>
          (case map_of (attributes mesh) ''position'' of
             None \<Rightarrow> Inl (DeveloperError ''mesh.attributes.position.values is required'')
           | Some position \<Rightarrow>
               (case attrValues position of
                  None \<Rightarrow> Inl (DeveloperError ''mesh.attributes.position.values is required'')
                | Some vertices \<Rightarrow>
                    if componentsPerAttribute position \<noteq> 3 \<or> length vertices mod 3 \<noteq> 0
                    then Inl (DeveloperError
                      ''mesh.attributes.position.values.length must be a multiple of 3'')
                    else
                      (case indexList mesh of
                         None \<Rightarrow> Inr mesh
                       | Some indices \<Rightarrow>
                           if primitiveType mesh \<noteq> TRIANGLES \<or> length indices < 2 \<or>
                              length indices mod 3 \<noteq> 0
                           then Inr mesh
                           else
                             (let numVertices = length vertices div 3 in
                              bindE (countTriangles_loop ops vertices indices 0
                                       (replicate numVertices
                                          \<lparr>indexOffset = 0, count = 0, currentCount = 0\<rparr>) [])
                                (\<lambda>(normalsPerVertex, normalsPerTriangle).
                              bindE (placeTriangles_loop indices 0 0
                                       (assignOffsets normalsPerVertex,
                                        replicate (length indices) None))
                                (\<lambda>(normalsPerVertex, normalIndices).
                                (let attrs = ensureNormal numVertices (attributes mesh) in
                                 case map_of attrs ''normal'' of
                                   None \<Rightarrow> Inl TypeError
                                 | Some normal \<Rightarrow>
                                     (case attrValues normal of
                                        None \<Rightarrow>
                                          if numVertices = 0
                                          then Inr (mesh\<lparr>attributes := attrs\<rparr>)
                                          else Inl TypeError
                                      | Some normalValues \<Rightarrow>
                                          bindE (writeNormals_loop ops normalsPerTriangle
                                                   normalIndices normalsPerVertex
                                                   [0 ..< numVertices] normalValues)
                                            (\<lambda>normalValues.
                                               Inr (mesh\<lparr>attributes :=
                                                 map (\<lambda>(name, a).
                                                        if name = ''normal''
                                                        then (name, a\<lparr>attrValues :=
                                                                       Some normalValues\<rparr>)
                                                        else (name, a)) attrs\<rparr>)))))))))))"

section \<open>transformToWorldCoordinates\<close>

text \<open>\<open>transformPoint\<close> and \<open>transformVector\<close> are one loop over the triples of a values
  array, applied with \<open>Matrix4.multiplyByPoint\<close> or \<open>Matrix3.multiplyByVector\<close>. The
  bound \<open>length\<close> is read once, before the loop; the stores may extend the array.\<close>

function transformTriples_loop ::
  "(Cartesian3 \<Rightarrow> Cartesian3) \<Rightarrow> nat \<Rightarrow> nat \<Rightarrow> real jsarray \<Rightarrow> real jsarray" where
  "transformTriples_loop multiply len i vals =
     (if i < len
      then
        (case multiply (js_get vals (int i), js_get vals (int i + 1), js_get vals (int i + 2)) of
           (x, y, z) \<Rightarrow>
             transformTriples_loop multiply len (i + 3)
               (js_set (js_set (js_set vals (int i) x) (int i + 1) y) (int i + 2) z))
      else vals)"
  by pat_completeness auto
termination
  by (relation "measure (\<lambda>(multiply, len, i, vals). len - i)") auto

declare transformTriples_loop.simps [simp del]

text \<open>The call \<open>transformPoint(matrix, attributes.name)\<close>: nothing happens when the
  geometry has no such attribute; an attribute without \<open>values\<close> fails at
  \<open>values.length\<close>; otherwise the attribute is updated in place.\<close>

definition transformAttribute ::
  "(Cartesian3 \<Rightarrow> Cartesian3) \<Rightarrow> string \<Rightarrow> (string \<times> GeometryAttribute) list
   \<Rightarrow> error + (string \<times> GeometryAttribute) list" where
  "transformAttribute multiply name attrs =
     (case map_of attrs name of
        None \<Rightarrow> Inr attrs
      | Some attribute \<Rightarrow>
          (case attrValues attribute of
             None \<Rightarrow> Inl TypeError
           | Some vals \<Rightarrow>
               Inr (map (\<lambda>(n, a). if n = name
                          then (n, a\<lparr>attrValues :=
                                  Some (transformTriples_loop multiply (length vals) 0 vals)\<rparr>)
                          else (n, a)) attrs)))"

text \<open>The result pairs the value the call returns (\<open>None\<close> for \<open>undefined\<close>) with the
  instance as the call leaves it.\<close>

definition transformToWorldCoordinates ::
  "Collaborators \<Rightarrow> GeometryInstance option
   \<Rightarrow> error + (GeometryInstance option \<times> GeometryInstance)" where
  "transformToWorldCoordinates ops instance =
     (case instance of
        None \<Rightarrow> Inl (DeveloperError ''instance is required.'')
      | Some inst \<Rightarrow>
          (let matrix = modelMatrix inst in
           if Matrix4_equals matrix Matrix4_IDENTITY
           then Inr (None, inst)
           else
             (let attrs = attributes (geometry inst) in
              bindE (transformAttribute (Matrix4_multiplyByPoint ops matrix) ''position'' attrs)
                (\<lambda>attrs.
              bindE
                (if map_of attrs ''normal'' \<noteq> None \<or> map_of attrs ''binormal'' \<noteq> None \<or>
                    map_of attrs ''tangent'' \<noteq> None
                 then
                   bindE (Matrix4_inverse ops matrix) (\<lambda>inverseTranspose.
                     (let normalMatrix =
                            Matrix4_getRotation ops (Matrix4_transpose ops inverseTranspose);
                          multiply = Matrix3_multiplyByVector ops normalMatrix
                      in bindE (transformAttribute multiply ''normal'' attrs) (\<lambda>attrs.
                         bindE (transformAttribute multiply ''binormal'' attrs) (\<lambda>attrs.
                         transformAttribute multiply ''tangent'' attrs))))
                 else Inr attrs)
                (\<lambda>attrs.
                   (let sphere =
                          map_option
                            (\<lambda>bs. bs\<lparr>center := Matrix4_multiplyByPoint ops matrix (center bs)\<rparr>)
                            (boundingSphere (geometry inst));
                        inst' = inst\<lparr>geometry := (geometry inst)\<lparr>attributes := attrs,
                                         boundingSphere := sphere\<rparr>,
                                     modelMatrix := Matrix4_IDENTITY\<rparr>
                    in Inr (Some inst', inst')))))))"

section \<open>combine\<close>

text \<open>A typed array has a fixed length: a store outside it is dropped.\<close>

definition typedArray_set :: "'a jsarray \<Rightarrow> nat \<Rightarrow> 'a option \<Rightarrow> 'a jsarray" where
  "typedArray_set vals k v = (if k < length vals then vals[k := v] else vals)"

text \<open>Modelled from the spec: \<open>createTypedArray\<close> is a method of ComponentDatatype, which
  GeometryFilters.js only imports. The specification has the merged values in one buffer
  sized to the sum of the per-instance lengths; a fresh typed array is filled with zeros.\<close>

definition createTypedArray :: "ComponentDatatype \<Rightarrow> nat \<Rightarrow> real jsarray" where
  "createTypedArray datatype n = replicate n (Some 0)"

text \<open>A store into a typed array converts the value to the element type of the array. Which
  typed array a component datatype creates is decided in ComponentDatatype, so the
  conversion is taken as given: \<open>toElement datatype v\<close> is what an element of the typed
  array of \<open>datatype\<close> holds after \<open>v\<close> was stored in it.\<close>

type_synonym ElementConversion = "ComponentDatatype \<Rightarrow> real option \<Rightarrow> real option"

text \<open>The inner loop of \<open>findAttributesInAllGeometries\<close> over the instances after the
  first: \<open>None\<close> when the attribute is missing or differs somewhere (the \<open>break\<close>),
  otherwise the total number of components.\<close>

fun inAllGeometries ::
  "string \<Rightarrow> GeometryAttribute \<Rightarrow> GeometryInstance list \<Rightarrow> nat \<Rightarrow> error + nat option" where
  "inAllGeometries name attribute [] numberOfComponents = Inr (Some numberOfComponents)"
| "inAllGeometries name attribute (inst # rest) numberOfComponents =
     (case map_of (attributes (geometry inst)) name of
        None \<Rightarrow> Inr None
      | Some otherAttribute \<Rightarrow>
          if componentDatatype attribute \<noteq> componentDatatype otherAttribute \<or>
             componentsPerAttribute attribute \<noteq> componentsPerAttribute otherAttribute \<or>
             normalizeFlag attribute \<noteq> normalizeFlag otherAttribute
          then Inr None
          else (case attrValues otherAttribute of
                  None \<Rightarrow> Inl TypeError
                | Some vals \<Rightarrow>
                    inAllGeometries name attribute rest (numberOfComponents + length vals)))"

fun findAttributes_loop ::
  "(string \<times> GeometryAttribute) list \<Rightarrow> GeometryInstance list
   \<Rightarrow> error + (string \<times> GeometryAttribute) list" where
  "findAttributes_loop [] others = Inr []"
| "findAttributes_loop ((name, attribute) # remaining) others =
     (case attrValues attribute of
        None \<Rightarrow> Inl TypeError
      | Some vals \<Rightarrow>
          bindE (inAllGeometries name attribute others (length vals)) (\<lambda>found.
          bindE (findAttributes_loop remaining others) (\<lambda>attributesInAllGeometries.
            Inr (case found of
                   None \<Rightarrow> attributesInAllGeometries
                 | Some numberOfComponents \<Rightarrow>
                     (name, \<lparr>componentDatatype = componentDatatype attribute,
                             componentsPerAttribute = componentsPerAttribute attribute,
                             normalizeFlag = normalizeFlag attribute,
                             attrValues = Some (createTypedArray (componentDatatype attribute)
                                                  numberOfComponents)\<rparr>)
                     # attributesInAllGeometries))))"

definition findAttributesInAllGeometries ::
  "GeometryInstance list \<Rightarrow> error + (string \<times> GeometryAttribute) list" where
  "findAttributesInAllGeometries instances =
     (case instances of
        [] \<Rightarrow> Inl TypeError
      | first # others \<Rightarrow> findAttributes_loop (attributes (geometry first)) others)"

text \<open>The loop \<open>values[k++] = sourceValues[j]\<close> for one instance, and the loop over the
  instances for one merged attribute. \<open>values\<close> is the typed array that
  \<open>findAttributesInAllGeometries\<close> created for the attribute, and \<open>store\<close> the
  conversion to its element type.\<close>

definition copyValues ::
  "(real option \<Rightarrow> real option) \<Rightarrow> real jsarray \<Rightarrow> real jsarray \<times> nat \<Rightarrow> real jsarray \<times> nat" where
  "copyValues store sourceValues acc =
     fold (\<lambda>j (vals, k). (typedArray_set vals k (store (js_get sourceValues (int j))), k + 1))
       [0 ..< length sourceValues] acc"

fun combineValues_loop ::
  "(real option \<Rightarrow> real option) \<Rightarrow> string \<Rightarrow> GeometryInstance list \<Rightarrow> real jsarray \<times> nat
   \<Rightarrow> error + real jsarray" where
  "combineValues_loop store name [] (vals, k) = Inr vals"
| "combineValues_loop store name (inst # rest) (vals, k) =
     (case map_of (attributes (geometry inst)) name of
        None \<Rightarrow> Inl TypeError
      | Some attribute \<Rightarrow>
          (case attrValues attribute of
             None \<Rightarrow> Inl TypeError
           | Some sourceValues \<Rightarrow>
               combineValues_loop store name rest (copyValues store sourceValues (vals, k))))"

fun combineAttributes_loop ::
  "ElementConversion \<Rightarrow> (string \<times> GeometryAttribute) list \<Rightarrow> GeometryInstance list
   \<Rightarrow> error + (string \<times> GeometryAttribute) list" where
  "combineAttributes_loop toElement [] instances = Inr []"
| "combineAttributes_loop toElement ((name, attribute) # remaining) instances =
     (case attrValues attribute of
        None \<Rightarrow> Inl TypeError
      | Some vals \<Rightarrow>
          bindE (combineValues_loop (toElement (componentDatatype attribute)) name instances
                   (vals, 0)) (\<lambda>vals.
          bindE (combineAttributes_loop toElement remaining instances) (\<lambda>remaining.
            Inr ((name, attribute\<lparr>attrValues := Some vals\<rparr>) # remaining))))"

text \<open>The number of indices per primitive type. Every instance is counted under the
  primitive type of the first, so the table has one entry; it is that entry's number.\<close>

fun numberOfIndices_loop :: "GeometryInstance list \<Rightarrow> nat \<Rightarrow> error + nat" where
  "numberOfIndices_loop [] numberOfIndices = Inr numberOfIndices"
| "numberOfIndices_loop (inst # rest) numberOfIndices =
     (case indexList (geometry inst) of
        None \<Rightarrow> Inl TypeError
      | Some indices \<Rightarrow> numberOfIndices_loop rest (numberOfIndices + length indices))"

text \<open>JavaScript numbers: \<open>None\<close> stands for \<open>NaN\<close> and the infinities, which a
  division by zero or an operand \<open>undefined\<close> produces and every later sum keeps. A store
  into a \<open>Uint16Array\<close> or \<open>Uint32Array\<close> truncates the number towards zero, reduces it
  modulo \<open>2^16\<close> or \<open>2^32\<close>, and stores zero for \<open>NaN\<close> and the infinities.\<close>

definition js_divide :: "nat \<Rightarrow> int \<Rightarrow> real option" where
  "js_divide n d = (if d = 0 then None else Some (real n / real_of_int d))"

definition js_plus :: "real option \<Rightarrow> real option \<Rightarrow> real option" where
  "js_plus a b = (case a of None \<Rightarrow> None | Some x \<Rightarrow> map_option (\<lambda>y. x + y) b)"

definition toUint :: "nat \<Rightarrow> real option \<Rightarrow> int" where
  "toUint bits x =
     (case x of
        None \<Rightarrow> 0
      | Some r \<Rightarrow> (if 0 \<le> r then \<lfloor>r\<rfloor> else \<lceil>r\<rceil>) mod 2 ^ bits)"

text \<open>The loop \<open>destValues[n++] = offset + sourceValues[k]\<close> for one instance.\<close>

definition copyIndices ::
  "nat \<Rightarrow> real option \<Rightarrow> int jsarray \<Rightarrow> int jsarray \<times> nat \<Rightarrow> int jsarray \<times> nat" where
  "copyIndices bits offset sourceValues acc =
     fold (\<lambda>k (destValues, n).
             (typedArray_set destValues n
                (Some (toUint bits
                   (js_plus offset (map_option real_of_int (js_get sourceValues (int k)))))),
              n + 1))
       [0 ..< length sourceValues] acc"

text \<open>The advance of \<open>offset\<close> by the vertex count of the first attribute that
  \<open>for (name in attrs)\<close> enumerates (the loop body ends in \<open>break\<close>).\<close>

definition advanceOffset ::
  "(string \<times> GeometryAttribute) list \<Rightarrow> real option \<Rightarrow> error + real option" where
  "advanceOffset attrs offset =
     (case attrs of
        [] \<Rightarrow> Inr offset
      | (name, attribute) # remaining \<Rightarrow>
          (case attrValues attribute of
             None \<Rightarrow> Inl TypeError
           | Some vals \<Rightarrow>
               Inr (js_plus offset
                      (js_divide (length vals) (componentsPerAttribute attribute)))))"

fun combineIndices_loop ::
  "nat \<Rightarrow> GeometryInstance list \<Rightarrow> real option \<Rightarrow> int jsarray \<times> nat \<Rightarrow> error + int jsarray" where
  "combineIndices_loop bits [] offset (destValues, currentOffset) = Inr destValues"
| "combineIndices_loop bits (inst # rest) offset (destValues, currentOffset) =
     (case indexList (geometry inst) of
        None \<Rightarrow> Inl TypeError
      | Some sourceValues \<Rightarrow>
          bindE (advanceOffset (attributes (geometry inst)) offset) (\<lambda>offset'.
            combineIndices_loop bits rest offset'
              (copyIndices bits offset sourceValues (destValues, currentOffset))))"

text \<open>The bounding sphere of the result: none as soon as an instance has none, the clone
  of the first sphere, then the union with each further one.\<close>

fun combineBoundingSpheres ::
  "(BoundingSphere \<Rightarrow> BoundingSphere \<Rightarrow> BoundingSphere) \<Rightarrow> GeometryInstance list
   \<Rightarrow> BoundingSphere option \<Rightarrow> BoundingSphere option" where
  "combineBoundingSpheres sphereUnion [] result = result"
| "combineBoundingSpheres sphereUnion (inst # rest) result =
     (case boundingSphere (geometry inst) of
        None \<Rightarrow> None
      | Some bs \<Rightarrow>
          combineBoundingSpheres sphereUnion rest
            (case result of
               None \<Rightarrow> Some bs
             | Some sphere \<Rightarrow> Some (sphereUnion sphere bs)))"

text \<open>\<open>combine\<close>, with the element conversion of the typed arrays and
  \<open>BoundingSphere.union\<close> of the bounding-sphere collaborator taken as given.\<close>

definition combine ::
  "ElementConversion \<Rightarrow> (BoundingSphere \<Rightarrow> BoundingSphere \<Rightarrow> BoundingSphere)
   \<Rightarrow> GeometryInstance list option \<Rightarrow> error + Geometry" where
  "combine toElement sphereUnion instances_arg =
     (case instances_arg of
        None \<Rightarrow> Inl (DeveloperError
          ''instances is required and must have length greater than zero.'')
      | Some instances \<Rightarrow>
          (case instances of
             [] \<Rightarrow> Inl (DeveloperError
               ''instances is required and must have length greater than zero.'')
           | [inst] \<Rightarrow> Inr (geometry inst)
           | first # others \<Rightarrow>
               if \<exists>inst \<in> set others. \<not> Matrix4_equals (modelMatrix inst) (modelMatrix first)
               then Inl (DeveloperError ''All instances must have the same modelMatrix.'')
               else
                 bindE (findAttributesInAllGeometries instances) (\<lambda>attrs.
                 bindE (combineAttributes_loop toElement attrs instances) (\<lambda>attrs.
                 bindE (numberOfIndices_loop instances 0) (\<lambda>num.
                   (let bits = (if num < 60 * 1024 then 16 else 32) in
                    bindE (combineIndices_loop bits instances (Some 0)
                             (replicate num (Some 0), 0)) (\<lambda>combinedIndexList.
                      Inr \<lparr>attributes = attrs,
                           indexList = Some combinedIndexList,
                           primitiveType = primitiveType (geometry first),
                           boundingSphere =
                             combineBoundingSpheres sphereUnion instances None\<rparr>)))))))"

section \<open>Specification-side definitions\<close>

text \<open>The edge list the specification describes: every triangle \<open>(a, b, c)\<close> of a triangle
  list contributes the edges \<open>(a, b)\<close>, \<open>(b, c)\<close>, \<open>(c, a)\<close>, in order, without
  deduplication.\<close>

fun triangleEdges :: "'a list \<Rightarrow> 'a list" where
  "triangleEdges (a # b # c # rest) = [a, b, b, c, c, a] @ triangleEdges rest"
| "triangleEdges _ = []"

text \<open>The component values an attribute holds for the vertex an index names: the lookup a
  renderer performs for an entry of the index stream.\<close>

definition vertexComponents :: "GeometryAttribute \<Rightarrow> int option \<Rightarrow> real option list" where
  "vertexComponents attr index =
     (case attrValues attr of
        None \<Rightarrow> []
      | Some vals \<Rightarrow>
          map (\<lambda>i. js_get_at vals (map_option (\<lambda>k. componentsPerAttribute attr * k + int i) index))
            [0 ..< nat (componentsPerAttribute attr)])"

section \<open>Loop invariants\<close>

text \<open>The cross reference holds \<open>-1\<close> or a new index below the next one to hand out, and
  no new index is handed out twice.\<close>

definition xref_ok :: "int jsarray \<Rightarrow> int \<Rightarrow> bool" where
  "xref_ok xref nx \<longleftrightarrow>
     (\<forall>k < length xref. \<exists>t. xref ! k = Some t \<and> (t = - 1 \<or> (0 \<le> t \<and> t < nx))) \<and>
     (\<forall>k < length xref. \<forall>k' < length xref.
        xref ! k = xref ! k' \<longrightarrow> xref ! k \<noteq> Some (- 1) \<longrightarrow> k = k')"

text \<open>Every index written so far is the cross reference of the index read, and is set.\<close>

definition out_ok :: "int jsarray \<Rightarrow> int jsarray \<Rightarrow> int jsarray \<Rightarrow> bool" where
  "out_ok idx xref out \<longleftrightarrow>
     (\<forall>q < length out. q < length idx \<longrightarrow>
        out ! q = js_get_at xref (idx ! q) \<and> out ! q \<noteq> Some (- 1))"

text \<open>Every vertex copied so far that has a new index sits in the block of that index.\<close>

definition vert_ok :: "int jsarray \<Rightarrow> int \<Rightarrow> real jsarray \<Rightarrow> nat \<Rightarrow> real jsarray \<Rightarrow> bool" where
  "vert_ok xref nc ein into out \<longleftrightarrow>
     (\<forall>v < into. \<forall>t. js_get xref (int v) = Some t \<and> 0 \<le> t \<longrightarrow>
        (\<forall>i. 0 \<le> i \<and> i < nc \<longrightarrow> js_get out (nc * t + i) = js_get ein (nc * int v + i)))"

text \<open>What the specification says of a merge. An instance is mergeable when its
  attributes, under distinct names, all carry values and share one vertex count, and its
  index list is present and holds a number in every slot. An attribute of the first instance survives when every
  other instance has an attribute of that name with the same component datatype, component
  count and normalize flag.\<close>

definition vertexCount :: "Geometry \<Rightarrow> int" where
  "vertexCount g = (case computeNumberOfVertices g of Inl e \<Rightarrow> 0 | Inr n \<Rightarrow> n)"

definition mergeable :: "GeometryInstance \<Rightarrow> bool" where
  "mergeable inst \<longleftrightarrow>
     (\<exists>n. computeNumberOfVertices (geometry inst) = Inr n) \<and>
     distinct (map fst (attributes (geometry inst))) \<and>
     list_all (\<lambda>(name, attribute). attrValues attribute \<noteq> None) (attributes (geometry inst)) \<and>
     (case indexList (geometry inst) of
        None \<Rightarrow> False
      | Some indices \<Rightarrow> list_all (\<lambda>x. x \<noteq> None) indices)"

definition survives :: "GeometryInstance list \<Rightarrow> string \<times> GeometryAttribute \<Rightarrow> bool" where
  "survives others = (\<lambda>(name, attribute).
     list_all (\<lambda>inst.
        case map_of (attributes (geometry inst)) name of
          None \<Rightarrow> False
        | Some otherAttribute \<Rightarrow>
            componentDatatype attribute = componentDatatype otherAttribute \<and>
            componentsPerAttribute attribute = componentsPerAttribute otherAttribute \<and>
            normalizeFlag attribute = normalizeFlag otherAttribute) others)"

definition instanceValues :: "string \<Rightarrow> GeometryInstance \<Rightarrow> real jsarray" where
  "instanceValues name inst =
     (case map_of (attributes (geometry inst)) name of
        None \<Rightarrow> []
      | Some attribute \<Rightarrow> (case attrValues attribute of None \<Rightarrow> [] | Some vals \<Rightarrow> vals))"

definition instanceIndices :: "GeometryInstance \<Rightarrow> int jsarray" where
  "instanceIndices inst = (case indexList (geometry inst) of None \<Rightarrow> [] | Some indices \<Rightarrow> indices)"

text \<open>The merged attributes: each surviving attribute of the first instance, with the
  values of the instances concatenated in input order.\<close>

definition mergedAttributes :: "GeometryInstance list \<Rightarrow> (string \<times> GeometryAttribute) list" where
  "mergedAttributes instances =
     map (\<lambda>(name, attribute).
            (name, \<lparr>componentDatatype = componentDatatype attribute,
                    componentsPerAttribute = componentsPerAttribute attribute,
                    normalizeFlag = normalizeFlag attribute,
                    attrValues = Some (concat (map (instanceValues name) instances))\<rparr>))
       (filter (survives (tl instances)) (attributes (geometry (hd instances))))"

text \<open>The same once stored: every value converted to the element type of the typed array
  that holds it. The values of an attribute are representable when each of them is a number
  that the conversion leaves as it is.\<close>

definition storedAttributes ::
  "ElementConversion \<Rightarrow> (string \<times> GeometryAttribute) list \<Rightarrow> (string \<times> GeometryAttribute) list" where
  "storedAttributes toElement attrs =
     map (\<lambda>(name, attribute).
            (name, attribute\<lparr>attrValues :=
                     map_option (map (toElement (componentDatatype attribute)))
                       (attrValues attribute)\<rparr>)) attrs"

definition representable ::
  "ElementConversion \<Rightarrow> (string \<times> GeometryAttribute) list \<Rightarrow> bool" where
  "representable toElement attrs =
     list_all (\<lambda>(name, attribute).
        case attrValues attribute of
          None \<Rightarrow> True
        | Some vals \<Rightarrow>
            list_all (\<lambda>v. v \<noteq> None \<and> toElement (componentDatatype attribute) v = v) vals)
       attrs"

text \<open>The merged indices: the index lists concatenated in input order, each index raised
  by the vertex count of all instances before its own and then stored in a buffer of the
  given width, that is, reduced modulo \<open>2 ^ bits\<close>.\<close>

fun mergedIndices :: "nat \<Rightarrow> int \<Rightarrow> GeometryInstance list \<Rightarrow> int jsarray" where
  "mergedIndices bits offset [] = []"
| "mergedIndices bits offset (inst # rest) =
     map (map_option (\<lambda>x. (offset + x) mod 2 ^ bits)) (instanceIndices inst) @
     mergedIndices bits (offset + vertexCount (geometry inst)) rest"

text \<open>The same without the reduction, as the claim has it.\<close>

fun offsetIndices :: "int \<Rightarrow> GeometryInstance list \<Rightarrow> int jsarray" where
  "offsetIndices offset [] = []"
| "offsetIndices offset (inst # rest) =
     map (map_option (\<lambda>x. offset + x)) (instanceIndices inst) @
     offsetIndices (offset + vertexCount (geometry inst)) rest"

definition indexBits :: "GeometryInstance list \<Rightarrow> nat" where
  "indexBits instances =
     (if (\<Sum>inst \<leftarrow> instances. length (instanceIndices inst)) < 60 * 1024 then 16 else 32)"

text \<open>Reversing a chunk's vertex remap: the old index, among those of the mesh, that the
  table sends to the given new index.\<close>

definition newToOld :: "(int option \<rightharpoonup> int) \<Rightarrow> int \<Rightarrow> int option \<Rightarrow> int option" where
  "newToOld remap numberOfVertices new =
     find (\<lambda>old. remap (Some old) = new) (map int [0 ..< nat numberOfVertices])"

definition chunkTriangles :: "int \<Rightarrow> (int option \<rightharpoonup> int) \<times> Geometry \<Rightarrow> int jsarray" where
  "chunkTriangles numberOfVertices = (\<lambda>(remap, g).
     map (newToOld remap numberOfVertices) (case indexList g of None \<Rightarrow> [] | Some indices \<Rightarrow> indices))"

text \<open>The table of the current chunk sends valid old indices to new indices below the
  next one, and no two old indices to the same new index.\<close>

definition remap_ok :: "int \<Rightarrow> (int option \<rightharpoonup> int) \<Rightarrow> int \<Rightarrow> bool" where
  "remap_ok n remap c \<longleftrightarrow>
     0 \<le> c \<and>
     (\<forall>x k. remap x = Some k \<longrightarrow> (\<exists>i. x = Some i \<and> 0 \<le> i \<and> i < n) \<and> 0 \<le> k \<and> k < c) \<and>
     (\<forall>x y k. remap x = Some k \<longrightarrow> remap y = Some k \<longrightarrow> x = y)"

text \<open>The attributes of the current chunk are those of the mesh that carry values, each
  with as many vertices as new indices have been handed out.\<close>

definition attrs_ok ::
  "(string \<times> GeometryAttribute) list \<Rightarrow> (string \<times> GeometryAttribute) list \<Rightarrow> int \<Rightarrow> bool" where
  "attrs_ok source dest c \<longleftrightarrow>
     map (\<lambda>(name, d). (name, componentsPerAttribute d)) dest =
       map (\<lambda>(name, a). (name, componentsPerAttribute a))
         (filter (\<lambda>(name, a). attrValues a \<noteq> None) source) \<and>
     (\<forall>(name, d)\<in>set dest. \<exists>vals. attrValues d = Some vals \<and>
        int (length vals) = componentsPerAttribute d * c)"

text \<open>Every new index below the next one has been handed out to some old index.\<close>

definition remap_onto :: "(int option \<rightharpoonup> int) \<Rightarrow> int \<Rightarrow> bool" where
  "remap_onto remap c \<longleftrightarrow> (\<forall>k. 0 \<le> k \<and> k < c \<longrightarrow> (\<exists>x. remap x = Some k))"

text \<open>The attributes of the current chunk describe those of the mesh that carry values,
  name by name, and under the new index of a vertex they hold the components that the mesh
  holds under its old index.\<close>

definition data_ok ::
  "(string \<times> GeometryAttribute) list \<Rightarrow> (string \<times> GeometryAttribute) list
   \<Rightarrow> (int option \<rightharpoonup> int) \<Rightarrow> bool" where
  "data_ok source dest remap \<longleftrightarrow>
     list_all2 (\<lambda>(name, a) (name', d).
        name' = name \<and> componentDatatype d = componentDatatype a \<and>
        componentsPerAttribute d = componentsPerAttribute a \<and>
        normalizeFlag d = normalizeFlag a \<and>
        (\<forall>x k. remap x = Some k \<longrightarrow> vertexComponents d (Some k) = vertexComponents a x))
       (filter (\<lambda>(name, a). attrValues a \<noteq> None) source) dest"

text \<open>What the specification says of one chunk of a partition of \<open>mesh\<close>, a mesh of
  \<open>n\<close> vertices, given the chunk's vertex remap (old index to new index). The chunk has
  the primitive type of the mesh, at most 65536 vertices and whole triangles; every index
  of the chunk names a vertex of the chunk; every vertex of the chunk comes from a vertex
  of the mesh; and the chunk has the attributes of the mesh that carry values, each with
  the same description, holding for every vertex of the chunk the components that the mesh
  holds for the vertex it comes from.\<close>

definition validChunk :: "Geometry \<Rightarrow> int \<Rightarrow> (int option \<rightharpoonup> int) \<times> Geometry \<Rightarrow> bool" where
  "validChunk mesh n = (\<lambda>(remap, g).
     primitiveType g = primitiveType mesh \<and>
     (\<exists>c indices.
        computeNumberOfVertices g = Inr c \<and> c \<le> 65536 \<and>
        indexList g = Some indices \<and> length indices mod 3 = 0 \<and>
        (\<forall>x\<in>set indices. \<exists>k. x = Some k \<and> 0 \<le> k \<and> k < c) \<and>
        (\<forall>k. 0 \<le> k \<and> k < c \<longrightarrow> (\<exists>old. newToOld remap n (Some k) = Some old)) \<and>
        list_all2 (\<lambda>(name, a) (name', d).
           name' = name \<and> componentDatatype d = componentDatatype a \<and>
           componentsPerAttribute d = componentsPerAttribute a \<and>
           normalizeFlag d = normalizeFlag a \<and>
           (\<forall>k. 0 \<le> k \<and> k < c \<longrightarrow>
              vertexComponents d (Some k) = vertexComponents a (newToOld remap n (Some k))))
          (filter (\<lambda>(name, a). attrValues a \<noteq> None) (attributes mesh)) (attributes g)))"

text \<open>The invariant of the loop over the triangles: the sealed chunks, mapped back, and
  the triangles of the current chunk make up the indices read so far.\<close>

definition fit_inv :: "Geometry \<Rightarrow> int \<Rightarrow> int jsarray \<Rightarrow> nat \<Rightarrow> FitState \<Rightarrow> bool" where
  "fit_inv mesh n idx j st \<longleftrightarrow>
     remap_ok n (oldToNewIndex st) (currentIndex st) \<and>
     currentIndex st + 3 \<le> 65536 \<and>
     attrs_ok (attributes mesh) (newAttributes st) (currentIndex st) \<and>
     remap_onto (oldToNewIndex st) (currentIndex st) \<and>
     data_ok (attributes mesh) (newAttributes st) (oldToNewIndex st) \<and>
     list_all (validChunk mesh n) (geometries st) \<and>
     (\<exists>seg. concat (map (chunkTriangles n) (geometries st)) @ seg = take j idx \<and>
            length seg mod 3 = 0 \<and>
            newIndices st = map (oldToNewIndex st) seg \<and>
            (\<forall>x\<in>set seg. oldToNewIndex st x \<noteq> None))"

text \<open>One step of the loop in copyVertex.\<close>

definition copyStep ::
  "int option \<Rightarrow> string \<times> GeometryAttribute \<Rightarrow> (string \<times> GeometryAttribute) list
   \<Rightarrow> (string \<times> GeometryAttribute) list" where
  "copyStep index = (\<lambda>(attribute, attr) dest.
             case attrValues attr of
               None \<Rightarrow> dest
             | Some sourceValues \<Rightarrow>
                 map (\<lambda>(name, d).
                        if name = attribute
                        then (name, d\<lparr>attrValues :=
                                map_option (pushVertex (componentsPerAttribute attr)
                                              sourceValues index) (attrValues d)\<rparr>)
                        else (name, d)) dest)"

text \<open>What \<open>copyVertex\<close> does to one attribute of the destination: the vertex is pushed
  from the attribute of that name in the source, when that one carries values.\<close>

definition pushInto ::
  "(string \<times> GeometryAttribute) list \<Rightarrow> int option \<Rightarrow> string \<times> GeometryAttribute
   \<Rightarrow> string \<times> GeometryAttribute" where
  "pushInto source index = (\<lambda>(name, d).
     case map_of source name of
       None \<Rightarrow> (name, d)
     | Some a \<Rightarrow>
         (case attrValues a of
            None \<Rightarrow> (name, d)
          | Some sourceValues \<Rightarrow>
              (name, d\<lparr>attrValues :=
                        map_option (pushVertex (componentsPerAttribute a) sourceValues index)
                          (attrValues d)\<rparr>)))"

text \<open>While a vertex is copied, the attributes named in \<open>S\<close> have received it.\<close>

definition blocks_ok :: "string set \<Rightarrow> int \<Rightarrow> (string \<times> GeometryAttribute) list \<Rightarrow> bool" where
  "blocks_ok S c dest \<longleftrightarrow>
     (\<forall>(name, d)\<in>set dest. \<exists>vals. attrValues d = Some vals \<and>
        int (length vals) = componentsPerAttribute d * (if name \<in> S then c + 1 else c))"

text \<open>The invariants of computeNormal. The vertex an index names, and an index list all of
  whose entries are vertices of the mesh.\<close>

definition vertexOf :: "int option \<Rightarrow> nat" where
  "vertexOf x = (case x of None \<Rightarrow> 0 | Some i \<Rightarrow> nat i)"

definition validIndices :: "nat \<Rightarrow> int jsarray \<Rightarrow> bool" where
  "validIndices n indices \<longleftrightarrow> (\<forall>x\<in>set indices. \<exists>i. x = Some i \<and> 0 \<le> i \<and> i < int n)"

text \<open>After the first loop over the triangles \<open>count\<close> has grown by the number of
  occurrences of each vertex in the index list; the other two fields are as before.\<close>

definition counted :: "VertexNormalData list \<Rightarrow> nat list \<Rightarrow> VertexNormalData list \<Rightarrow> bool" where
  "counted npv vs npv' \<longleftrightarrow>
     length npv' = length npv \<and>
     (\<forall>v < length npv.
        count (npv' ! v) = count (npv ! v) + count_list vs v \<and>
        indexOffset (npv' ! v) = indexOffset (npv ! v) \<and>
        currentCount (npv' ! v) = currentCount (npv ! v))"

text \<open>The offset of the bucket of a vertex in \<open>normalIndices\<close>: the sum of the counts
  of the vertices before it.\<close>

definition offsetOf :: "(nat \<Rightarrow> nat) \<Rightarrow> nat \<Rightarrow> nat" where
  "offsetOf cnt v = (\<Sum>u\<leftarrow>[0 ..< v]. cnt u)"

text \<open>While the triangles are placed: the vertices \<open>vs\<close> seen so far have filled the first
  slots of their buckets with triangle numbers.\<close>

definition buckets ::
  "nat \<Rightarrow> (nat \<Rightarrow> nat) \<Rightarrow> nat \<Rightarrow> nat list \<Rightarrow> VertexNormalData list \<times> nat jsarray \<Rightarrow> bool" where
  "buckets n cnt numTriangles vs = (\<lambda>(npv, normalIndices).
     length npv = n \<and>
     (\<forall>v < n. indexOffset (npv ! v) = offsetOf cnt v \<and> count (npv ! v) = cnt v \<and>
        currentCount (npv ! v) = count_list vs v) \<and>
     (\<forall>v < n. \<forall>k < count_list vs v.
        \<exists>t < numTriangles. js_get normalIndices (int (offsetOf cnt v + k)) = Some t))"

text \<open>The vertices of \<open>S\<close> that no triangle counts have the normal \<open>(0, 0, 1)\<close>.\<close>

definition unreferenced_ok :: "VertexNormalData list \<Rightarrow> nat set \<Rightarrow> real jsarray \<Rightarrow> bool" where
  "unreferenced_ok npv S nv \<longleftrightarrow>
     (\<forall>v\<in>S. count (npv ! v) = 0 \<longrightarrow>
        js_get nv (int (v * 3)) = Some 0 \<and> js_get nv (int (v * 3) + 1) = Some 0 \<and>
        js_get nv (int (v * 3) + 2) = Some 1)"

section \<open>Concrete inputs\<close>

definition positionAttribute :: "real jsarray \<Rightarrow> GeometryAttribute" where
  "positionAttribute vals =
     \<lparr>componentDatatype = FLOAT, componentsPerAttribute = 3, normalizeFlag = None,
      attrValues = Some vals\<rparr>"

text \<open>The triangle \<open>(0,0,0), (1,0,0), (0,1,0)\<close> and a quad of four vertices.\<close>

definition trianglePositions :: "real jsarray" where
  "trianglePositions = [Some 0, Some 0, Some 0, Some 1, Some 0, Some 0, Some 0, Some 1, Some 0]"

definition quadPositions :: "real jsarray" where
  "quadPositions = trianglePositions @ [Some 1, Some 1, Some 0]"

definition triangleMesh :: "int jsarray option \<Rightarrow> Geometry" where
  "triangleMesh indices =
     \<lparr>attributes = [(''position'', positionAttribute trianglePositions)],
      indexList = indices, primitiveType = TRIANGLES, boundingSphere = None\<rparr>"

definition quadMesh :: "int jsarray option \<Rightarrow> Geometry" where
  "quadMesh indices =
     \<lparr>attributes = [(''position'', positionAttribute quadPositions)],
      indexList = indices, primitiveType = TRIANGLES, boundingSphere = None\<rparr>"

text \<open>The collaborators on translation matrices, enough to run the world transform on a
  translated instance: a point moves by the translation column, the inverse negates that
  column, and the rotation part is the unit matrix, so that directions stay as they are.\<close>

definition translationCollaborators :: Collaborators where
  "translationCollaborators =
     \<lparr>Matrix4_multiplyByPoint =
        (\<lambda>m (x, y, z). (map_option (\<lambda>v. v + m ! 12) x, map_option (\<lambda>v. v + m ! 13) y,
                       map_option (\<lambda>v. v + m ! 14) z)),
      Matrix3_multiplyByVector = (\<lambda>m v. v),
      Matrix4_inverse = (\<lambda>m. Inr (m[12 := - (m ! 12), 13 := - (m ! 13), 14 := - (m ! 14)])),
      Matrix4_transpose = (\<lambda>m. map (\<lambda>i. m ! (4 * (i mod 4) + i div 4)) [0 ..< 16]),
      Matrix4_getRotation = (\<lambda>m. [m ! 0, m ! 1, m ! 2, m ! 4, m ! 5, m ! 6, m ! 8, m ! 9, m ! 10])\<rparr>"

definition translateX :: Matrix4 where
  "translateX = [1, 0, 0, 0,  0, 1, 0, 0,  0, 0, 1, 0,  5, 0, 0, 1]"

definition triangleInstance :: "Matrix4 \<Rightarrow> GeometryInstance" where
  "triangleInstance m =
     \<lparr>geometry = triangleMesh (Some [Some 0, Some 1, Some 2]), modelMatrix = m\<rparr>"

text \<open>A mesh of 65536 vertices, all at the origin, of which one triangle is drawn; and the
  quad as an instance.\<close>

definition largeInstance :: GeometryInstance where
  "largeInstance =
     \<lparr>geometry =
        \<lparr>attributes = [(''position'', positionAttribute (replicate (3 * 65536) (Some 0)))],
         indexList = Some [Some 0, Some 1, Some 2],
         primitiveType = TRIANGLES, boundingSphere = None\<rparr>,
      modelMatrix = Matrix4_IDENTITY\<rparr>"

definition quadInstance :: GeometryInstance where
  "quadInstance =
     \<lparr>geometry = quadMesh (Some [Some 0, Some 1, Some 2, Some 2, Some 1, Some 3]),
      modelMatrix = Matrix4_IDENTITY\<rparr>"

text \<open>A mesh of 65538 vertices, vertex \<open>v\<close> at \<open>(v, 0, 0)\<close>, drawn as the 21846 triangles
  \<open>(0, 1, 2), (3, 4, 5), \<dots>\<close>: more vertices than one chunk of fitToUnsignedShortIndices
  takes.\<close>

definition manyPositions :: "real jsarray" where
  "manyPositions = concat (map (\<lambda>v. [Some (real v), Some 0, Some 0]) [0 ..< 65538])"

definition manyIndices :: "int jsarray" where
  "manyIndices = map (\<lambda>v. Some (int v)) [0 ..< 65538]"

definition manyTriangles :: Geometry where
  "manyTriangles =
     \<lparr>attributes = [(''position'', positionAttribute manyPositions)],
      indexList = Some manyIndices,
      primitiveType = TRIANGLES, boundingSphere = None\<rparr>"

text \<open>The element conversion of the typed arrays: \<open>Int8Array\<close> for BYTE,
  \<open>Uint8Array\<close> for UNSIGNED_BYTE, \<open>Int16Array\<close> for SHORT, \<open>Uint16Array\<close> for
  UNSIGNED_SHORT and \<open>Float32Array\<close> for FLOAT. An integer array truncates the number and
  reduces it modulo \<open>2^8\<close> or \<open>2^16\<close> into its range, and holds zero for \<open>undefined\<close>
  and \<open>NaN\<close>. A \<open>Float32Array\<close> rounds the number to the nearest number with a
  significand of 24 bits, ties to the even one; what it holds for \<open>undefined\<close>, and for a
  number beyond the largest such number, is no finite number (\<open>None\<close>).\<close>

definition toInt :: "nat \<Rightarrow> real option \<Rightarrow> int" where
  "toInt bits x =
     (let u = toUint bits x in if 2 ^ (bits - 1) \<le> u then u - 2 ^ bits else u)"

definition roundHalfEven :: "real \<Rightarrow> int" where
  "roundHalfEven x =
     (let f = \<lfloor>x\<rfloor>
      in if x - real_of_int f < 1 / 2 then f
         else if 1 / 2 < x - real_of_int f then f + 1
         else if even f then f else f + 1)"

definition float32 :: "real \<Rightarrow> real option" where
  "float32 r =
     (if r = 0 then Some 0
      else
        (let e = max \<lfloor>log 2 \<bar>r\<bar>\<rfloor> (- 126);
             ulp = 2 powr real_of_int (e - 23);
             x = real_of_int (roundHalfEven (r / ulp)) * ulp
         in if 2 ^ 128 \<le> \<bar>x\<bar> then None else Some x))"

fun typedArrayElement :: ElementConversion where
  "typedArrayElement BYTE v = Some (real_of_int (toInt 8 v))"
| "typedArrayElement UNSIGNED_BYTE v = Some (real_of_int (toUint 8 v))"
| "typedArrayElement SHORT v = Some (real_of_int (toInt 16 v))"
| "typedArrayElement UNSIGNED_SHORT v = Some (real_of_int (toUint 16 v))"
| "typedArrayElement FLOAT v = (case v of None \<Rightarrow> None | Some r \<Rightarrow> float32 r)"

text \<open>Two instances of one vertex each, with a colour in an UNSIGNED_BYTE attribute.\<close>

definition colorInstance :: "real \<Rightarrow> GeometryInstance" where
  "colorInstance c =
     \<lparr>geometry =
        \<lparr>attributes = [(''color'', \<lparr>componentDatatype = UNSIGNED_BYTE,
                                     componentsPerAttribute = 1, normalizeFlag = None,
                                     attrValues = Some [Some c]\<rparr>)],
         indexList = Some [Some 0],
         primitiveType = POINTS, boundingSphere = None\<rparr>,
      modelMatrix = Matrix4_IDENTITY\<rparr>"

text \<open>Vector arithmetic over the reals, for running computeNormal on the meshes above. An
  undefined component makes the result undefined, and so does the division by the magnitude
  of the zero vector.\<close>

definition lift2 :: "(real \<Rightarrow> real \<Rightarrow> real) \<Rightarrow> real option \<Rightarrow> real option \<Rightarrow> real option" where
  "lift2 f a b = (case a of None \<Rightarrow> None | Some x \<Rightarrow> map_option (f x) b)"

definition divideBy :: "real option \<Rightarrow> real option \<Rightarrow> real option" where
  "divideBy magnitude x =
     (case magnitude of
        None \<Rightarrow> None
      | Some m \<Rightarrow> if m = 0 then None else map_option (\<lambda>v. v / m) x)"

definition realCartesian3 :: Cartesian3Ops where
  "realCartesian3 =
     \<lparr>Cartesian3_subtract =
        (\<lambda>(ax, ay, az) (bx, by, bz). (lift2 (-) ax bx, lift2 (-) ay by, lift2 (-) az bz)),
      Cartesian3_cross =
        (\<lambda>(ax, ay, az) (bx, by, bz).
           (lift2 (-) (lift2 (*) ay bz) (lift2 (*) az by),
            lift2 (-) (lift2 (*) az bx) (lift2 (*) ax bz),
            lift2 (-) (lift2 (*) ax by) (lift2 (*) ay bx))),
      Cartesian3_add =
        (\<lambda>(ax, ay, az) (bx, by, bz). (lift2 (+) ax bx, lift2 (+) ay by, lift2 (+) az bz)),
      Cartesian3_normalize =
        (\<lambda>(x, y, z).
           (let magnitude = map_option sqrt
                  (lift2 (+) (lift2 (+) (lift2 (*) x x) (lift2 (*) y y)) (lift2 (*) z z))
            in (divideBy magnitude x, divideBy magnitude y, divideBy magnitude z)))\<rparr>"

section \<open>Properties of computeNumberOfVertices\<close>

lemma computeNumberOfVertices_loop_count:
  "computeNumberOfVertices_loop attrs acc = Inr n \<Longrightarrow>
     (acc = None \<or> acc = Some n) \<and>
     (\<forall>(name, a)\<in>set attrs. \<forall>vals. attrValues a = Some vals \<longrightarrow>
        attributeVertexCount a vals = Inr n)"
proof (induction attrs arbitrary: acc)
  case Nil
  then show ?case by (cases acc) auto
next
  case (Cons e attrs)
  obtain name a where e: "e = (name, a)" by (cases e)
  show ?case
  proof (cases "attrValues a")
    case None
    with Cons.prems e have "computeNumberOfVertices_loop attrs acc = Inr n" by simp
    from Cons.IH[OF this] show ?thesis using None e by auto
  next
    case (Some vals)
    show ?thesis
    proof (cases "attributeVertexCount a vals")
      case (Inl err)
      with Cons.prems e Some show ?thesis by simp
    next
      case (Inr num)
      with Cons.prems e Some have ok: "acc = None \<or> acc = Some num"
        and rec: "computeNumberOfVertices_loop attrs (Some num) = Inr n"
        by (auto split: if_splits)
      from Cons.IH[OF rec] have "num = n"
        and rest: "\<forall>(name, a)\<in>set attrs. \<forall>vals. attrValues a = Some vals \<longrightarrow>
           attributeVertexCount a vals = Inr n" by auto
      with ok Inr Some e show ?thesis by auto
    qed
  qed
qed

lemma attributeVertexCount_length:
  assumes "attributeVertexCount a vals = Inr n"
  shows "0 < componentsPerAttribute a \<and> int (length vals) = componentsPerAttribute a * n"
  using assms by (auto simp: attributeVertexCount_def split: if_splits)

lemma computeNumberOfVertices_attribute:
  assumes "computeNumberOfVertices g = Inr n" "(name, a) \<in> set (attributes g)"
    "attrValues a = Some vals"
  shows "0 < componentsPerAttribute a \<and> int (length vals) = componentsPerAttribute a * n"
proof -
  from computeNumberOfVertices_loop_count[OF assms(1)[unfolded computeNumberOfVertices_def]] assms(2,3)
  have "attributeVertexCount a vals = Inr n" by auto
  then show ?thesis by (rule attributeVertexCount_length)
qed

section \<open>Properties of toWireframe\<close>

lemma drop_three:
  assumes "i + 3 \<le> length xs"
  shows "drop i xs = xs ! i # xs ! (i + 1) # xs ! (i + 2) # drop (i + 3) xs"
proof -
  have "drop i xs = xs ! i # drop (Suc i) xs"
    using assms by (simp add: Cons_nth_drop_Suc)
  also have "drop (Suc i) xs = xs ! (Suc i) # drop (Suc (Suc i)) xs"
    using assms by (simp add: Cons_nth_drop_Suc)
  also have "drop (Suc (Suc i)) xs = xs ! (Suc (Suc i)) # drop (Suc (Suc (Suc i))) xs"
    using assms by (simp add: Cons_nth_drop_Suc)
  finally show ?thesis by (simp add: numeral_3_eq_3 add.commute)
qed

lemma trianglesToLines_loop_edges:
  "length triangles mod 3 = 0 \<Longrightarrow> i mod 3 = 0 \<Longrightarrow>
   trianglesToLines_loop triangles i lines = lines @ triangleEdges (drop i triangles)"
proof (induction triangles i lines rule: trianglesToLines_loop.induct)
  case (1 triangles i lines)
  show ?case
  proof (cases "i < length triangles")
    case False
    then show ?thesis by (subst trianglesToLines_loop.simps) simp
  next
    case True
    with "1.prems" have le: "i + 3 \<le> length triangles" by presburger
    have m: "(i + 3) mod 3 = 0" using "1.prems" by presburger
    let ?lines' = "addTriangle lines (js_get triangles (int i)) (js_get triangles (int i + 1))
                     (js_get triangles (int i + 2))"
    have g: "js_get triangles (int i) = triangles ! i"
      "js_get triangles (int i + 1) = triangles ! (i + 1)"
      "js_get triangles (int i + 2) = triangles ! (i + 2)"
      using le by (simp_all add: js_get_def nat_add_distrib)
    have "trianglesToLines_loop triangles i lines =
          trianglesToLines_loop triangles (i + 3) ?lines'"
      using True by (subst trianglesToLines_loop.simps) simp
    also have "\<dots> = ?lines' @ triangleEdges (drop (i + 3) triangles)"
      using "1.IH"[OF True "1.prems"(1) m] .
    also have "\<dots> = lines @ triangleEdges (drop i triangles)"
      by (simp add: g addTriangle_def drop_three[OF le])
    finally show ?thesis .
  qed
qed

lemma triangleEdges_length:
  "length xs mod 3 = 0 \<Longrightarrow> length (triangleEdges xs) = 2 * length xs"
  by (induction xs rule: triangleEdges.induct) auto

text \<open>
  Claim C7, as the code has it. For a mesh with primitive type TRIANGLES and an index list
  whose length is a multiple of three, \<open>toWireframe\<close> replaces the index list by the edge
  list of its triangles: each triangle \<open>(a, b, c)\<close> contributes the six indices of
  \<open>(a, b)\<close>, \<open>(b, c)\<close>, \<open>(c, a)\<close>, nothing is deduplicated, the result has exactly twice
  as many indices as the input, and the primitive type becomes LINES.
\<close>

theorem toWireframe_triangles:
  assumes "primitiveType m = TRIANGLES" and "indexList m = Some indices"
    and "length indices mod 3 = 0"
  shows "toWireframe (Some m) =
           Some (m\<lparr>indexList := Some (triangleEdges indices), primitiveType := LINES\<rparr>) \<and>
         length (triangleEdges indices) = 2 * length indices"
proof -
  have "trianglesToLines indices = triangleEdges indices"
    using trianglesToLines_loop_edges[of indices 0 "[]"] assms(3)
    by (simp add: trianglesToLines_def)
  then show ?thesis
    using assms by (simp add: toWireframe_def triangleEdges_length)
qed

theorem toWireframe_triangles_witness:
  "primitiveType (quadMesh (Some [Some 0, Some 1, Some 2, Some 2, Some 1, Some 3])) = TRIANGLES \<and>
   length [Some 0, Some 1, Some 2, Some 2, Some 1, Some (3::int)] mod 3 = 0 \<and>
   toWireframe (Some (quadMesh (Some [Some 0, Some 1, Some 2, Some 2, Some 1, Some 3]))) =
     Some ((quadMesh (Some [Some 0, Some 1, Some 2, Some 2, Some 1, Some 3]))
       \<lparr>indexList := Some [Some 0, Some 1, Some 1, Some 2, Some 2, Some 0,
                            Some 2, Some 1, Some 1, Some 3, Some 3, Some 2],
        primitiveType := LINES\<rparr>)"
  using toWireframe_triangles
    [of "quadMesh (Some [Some 0, Some 1, Some 2, Some 2, Some 1, Some 3])"
        "[Some 0, Some 1, Some 2, Some 2, Some 1, Some 3]"]
  by (simp add: quadMesh_def)

text \<open>
  Claim C7 as stated covers every TRIANGLES mesh with an index list. An index list of four
  entries is one: the loop steps by three and runs twice, the second time reading past the
  end, so the line list has twelve entries (six of them undefined), not eight.
\<close>

theorem toWireframe_line_count_counterexample:
  "primitiveType (quadMesh (Some [Some 0, Some 1, Some 2, Some 3])) = TRIANGLES \<and>
   toWireframe (Some (quadMesh (Some [Some 0, Some 1, Some 2, Some 3]))) =
     Some ((quadMesh (Some [Some 0, Some 1, Some 2, Some 3]))
       \<lparr>indexList := Some [Some 0, Some 1, Some 1, Some 2, Some 2, Some 0,
                            Some 3, None, None, None, None, Some 3],
        primitiveType := LINES\<rparr>) \<and>
   length [Some 0, Some 1, Some 1, Some 2, Some 2, Some 0,
           Some 3, None, None, None, None, Some (3::int)]
     \<noteq> 2 * length [Some 0, Some 1, Some 2, Some (3::int)]"
  by (simp add: quadMesh_def toWireframe_def trianglesToLines_def trianglesToLines_loop.simps
      addTriangle_def js_get_def)

section \<open>Properties of mapAttributeIndices\<close>

lemma mapAttributeIndices_fold_dom:
  "dom (fold (\<lambda>(name, slot) mappedIndices. mappedIndices(slot \<mapsto> ind name)) mp acc) =
     dom acc \<union> snd ` set mp"
  by (induction mp arbitrary: acc) (auto simp: case_prod_unfold)

lemma mapAttributeIndices_fold_value:
  assumes "slot \<in> snd ` set mp" and "\<forall>name'. (name', slot) \<in> set mp \<longrightarrow> ind name' = v"
  shows "fold (\<lambda>(name, slot) mappedIndices. mappedIndices(slot \<mapsto> ind name)) mp acc slot = Some v"
  using assms
proof (induction mp arbitrary: acc rule: rev_induct)
  case Nil
  then show ?case by simp
next
  case (snoc e mp)
  obtain name' slot' where e: "e = (name', slot')" by (cases e)
  show ?case
  proof (cases "slot' = slot")
    case True
    with snoc.prems e show ?thesis by simp
  next
    case False
    with snoc.prems e have "slot \<in> snd ` set mp" by auto
    moreover from snoc.prems have "\<forall>name'. (name', slot) \<in> set mp \<longrightarrow> ind name' = v" by simp
    ultimately show ?thesis using snoc.IH False e by simp
  qed
qed

text \<open>
  Claim C8, as the code has it. An entry of the map whose attribute name is absent from the
  indices table is not dropped: the returned table has an own property under that entry's
  slot, and the property holds \<open>undefined\<close> whenever every entry of the map with
  that slot has a name absent from the indices table (in particular when no other entry
  shares the slot).
\<close>

theorem mapAttributeIndices_absent_name:
  assumes "(name, slot) \<in> set mp" and "ind name = None"
  shows "slot \<in> dom (mapAttributeIndices (Some ind) (Some mp)) \<and>
         ((\<forall>name'. (name', slot) \<in> set mp \<longrightarrow> ind name' = None) \<longrightarrow>
            mapAttributeIndices (Some ind) (Some mp) slot = Some None)"
proof -
  have s: "slot \<in> snd ` set mp" using assms(1) by force
  then have "slot \<in> dom (mapAttributeIndices (Some ind) (Some mp))"
    by (simp add: mapAttributeIndices_def mapAttributeIndices_fold_dom)
  moreover have "(\<forall>name'. (name', slot) \<in> set mp \<longrightarrow> ind name' = None) \<longrightarrow>
            mapAttributeIndices (Some ind) (Some mp) slot = Some None"
    using mapAttributeIndices_fold_value[OF s, of ind None Map.empty]
    by (simp add: mapAttributeIndices_def)
  ultimately show ?thesis by blast
qed

theorem mapAttributeIndices_absent_name_witness:
  "(''normal'', 1) \<in> set [(''position'', 0), (''normal'', 1)] \<and>
   [''position'' \<mapsto> (4::int)] ''normal'' = None \<and>
   1 \<in> dom (mapAttributeIndices (Some [''position'' \<mapsto> 4])
              (Some [(''position'', 0), (''normal'', 1)])) \<and>
   mapAttributeIndices (Some [''position'' \<mapsto> 4])
     (Some [(''position'', 0), (''normal'', 1)]) 1 = Some None"
  using mapAttributeIndices_absent_name
    [of "''normal''" 1 "[(''position'', 0), (''normal'', 1)]" "[''position'' \<mapsto> 4]"]
  by simp

text \<open>
  Claim C8 as stated says the entry is dropped. With the indices table \<open>{position: 4}\<close>
  and the map \<open>{position: 0, normal: 1}\<close> the returned table is
  \<open>{0: 4, 1: undefined}\<close>: the key \<open>1\<close>, derived from the entry for \<open>normal\<close>, is there.
\<close>

theorem mapAttributeIndices_dropped_counterexample:
  "[''position'' \<mapsto> (4::int)] ''normal'' = None \<and>
   mapAttributeIndices (Some [''position'' \<mapsto> 4]) (Some [(''position'', 0), (''normal'', 1)])
     = [0 \<mapsto> Some 4, 1 \<mapsto> None] \<and>
   1 \<in> dom (mapAttributeIndices (Some [''position'' \<mapsto> 4])
              (Some [(''position'', 0), (''normal'', 1)]))"
  by (simp add: mapAttributeIndices_def)

section \<open>Properties of reorderForPreVertexCache\<close>

lemma js_get_js_set:
  "js_get (js_set xs i v) j = (if j = i \<and> 0 \<le> i then v else js_get xs j)"
  by (auto simp: js_get_def js_set_def nth_append nth_list_update nat_less_iff
      nat_eq_iff le_nat_iff not_less nth_Cons')

lemma length_js_set_in: "0 \<le> i \<Longrightarrow> i < int (length xs) \<Longrightarrow> length (js_set xs i v) = length xs"
  by (simp add: js_set_def)

lemma js_set_append: "js_set xs (int (length xs)) v = xs @ [v]"
  by (simp add: js_set_def)

lemma xref_ok_replicate: "xref_ok (replicate n (Some (- 1))) 0"
  by (simp add: xref_ok_def)

lemma xref_ok_update:
  assumes ok: "xref_ok xref nx" and k: "k < length xref" and old: "xref ! k = Some (- 1)"
    and nx: "0 \<le> nx"
  shows "xref_ok (xref[k := Some nx]) (nx + 1)"
  unfolding xref_ok_def
proof (intro conjI allI impI)
  fix j assume "j < length (xref[k := Some nx])"
  then have j: "j < length xref" by simp
  from ok j obtain t where t: "xref ! j = Some t" "t = - 1 \<or> (0 \<le> t \<and> t < nx)"
    unfolding xref_ok_def by blast
  show "\<exists>t. xref[k := Some nx] ! j = Some t \<and> (t = - 1 \<or> 0 \<le> t \<and> t < nx + 1)"
    using t j k nx by (cases "j = k") auto
next
  fix j j'
  assume a: "j < length (xref[k := Some nx])" "j' < length (xref[k := Some nx])"
    "xref[k := Some nx] ! j = xref[k := Some nx] ! j'" "xref[k := Some nx] ! j \<noteq> Some (- 1)"
  then have j: "j < length xref" "j' < length xref" by simp_all
  have bound: "\<And>i. i < length xref \<Longrightarrow> xref ! i \<noteq> Some nx"
  proof -
    fix i assume "i < length xref"
    with ok obtain t where "xref ! i = Some t" "t = - 1 \<or> (0 \<le> t \<and> t < nx)"
      unfolding xref_ok_def by blast
    then show "xref ! i \<noteq> Some nx" using nx by auto
  qed
  show "j = j'"
  proof (cases "j = k")
    case True
    show ?thesis
    proof (cases "j' = k")
      case True with \<open>j = k\<close> show ?thesis by simp
    next
      case False
      with a True k have "xref ! j' = Some nx" by simp
      with bound[OF j(2)] show ?thesis by simp
    qed
  next
    case False
    show ?thesis
    proof (cases "j' = k")
      case True
      with a False k have "xref ! j = Some nx" by simp
      with bound[OF j(1)] show ?thesis by simp
    next
      case F2: False
      with a False have "xref ! j = xref ! j'" "xref ! j \<noteq> Some (- 1)" by simp_all
      with ok j show ?thesis unfolding xref_ok_def by blast
    qed
  qed
qed

lemma reorderIndices_loop_inv:
  assumes "length xref = nat n" "xref_ok xref nx" "0 \<le> nx" "length out = into"
    "into \<le> length idx" "out_ok idx xref out"
  shows "\<exists>xref' out' nx'. reorderIndices_loop n idx into xref out nx = Inr (xref', out') \<and>
           length xref' = nat n \<and> xref_ok xref' nx' \<and> length out' = length idx \<and>
           out_ok idx xref' out'"
  using assms
proof (induction n idx into xref out nx rule: reorderIndices_loop.induct)
  case (1 n idx into xref out nx)
  show ?case
  proof (cases "into < length idx")
    case False
    with "1.prems" have "into = length idx" by simp
    with "1.prems" False show ?thesis
      by (subst reorderIndices_loop.simps) auto
  next
    case True
    define e where "e = js_get idx (int into)"
    define t where "t = js_get_at xref e"
    have e: "e = idx ! into" using True by (simp add: e_def js_get_def)
    have app: "\<And>v. js_set out (int into) v = out @ [v]"
      using "1.prems"(4) by (simp add: js_set_def)
    show ?thesis
    proof (cases "t = Some (- 1)")
      case False
      have step: "reorderIndices_loop n idx into xref out nx =
            reorderIndices_loop n idx (into + 1) xref (js_set out (int into) t) nx"
        using True False by (subst reorderIndices_loop.simps) (simp add: t_def e_def Let_def)
      have ok': "out_ok idx xref (js_set out (int into) t)"
        unfolding out_ok_def app
      proof (intro allI impI)
        fix q assume q: "q < length (out @ [t])" "q < length idx"
        show "(out @ [t]) ! q = js_get_at xref (idx ! q) \<and> (out @ [t]) ! q \<noteq> Some (- 1)"
        proof (cases "q < into")
          case True
          then show ?thesis using "1.prems"(4,6) q by (auto simp: out_ok_def nth_append)
        next
          case F: False
          with q "1.prems"(4) have "q = into" by simp
          then show ?thesis using False "1.prems"(4) by (simp add: nth_append t_def e)
        qed
      qed
      have "\<exists>xref' out' nx'. reorderIndices_loop n idx (into + 1) xref (js_set out (int into) t) nx
               = Inr (xref', out') \<and> length xref' = nat n \<and> xref_ok xref' nx' \<and>
               length out' = length idx \<and> out_ok idx xref' out'"
        apply (rule "1.IH"(1)[OF True t_def[unfolded e_def] False])
        using "1.prems" True ok' by (simp_all add: app)
      then show ?thesis by (simp only: step)
    next
      case eq: True
      then obtain k where k: "e = Some k" by (cases e) (auto simp: t_def js_get_at_def)
      with eq have kr: "0 \<le> k" "k < int (length xref)" and xk: "xref ! nat k = Some (- 1)"
        by (auto simp: t_def js_get_at_def js_get_def split: if_splits)
      have kn: "k < n" using kr "1.prems"(1) by linarith
      have gk: "js_get idx (int into) = Some k" using k by (simp add: e_def)
      have gx: "js_get_at xref (Some k) = Some (- 1)" using eq by (simp add: t_def k)
      have set: "js_set_at xref (Some k) (Some nx) = xref[nat k := Some nx]"
        using kr by (simp add: js_set_at_def js_set_def)
      have step: "reorderIndices_loop n idx into xref out nx =
            reorderIndices_loop n idx (into + 1) (js_set_at xref (js_get idx (int into)) (Some nx))
               (js_set out (int into) (Some nx)) (nx + 1)"
        using True kn
        by (subst reorderIndices_loop.simps) (simp add: gk gx Let_def)
      have xok': "xref_ok (xref[nat k := Some nx]) (nx + 1)"
        using xref_ok_update[OF "1.prems"(2) _ xk "1.prems"(3)] kr by simp
      have ok': "out_ok idx (xref[nat k := Some nx]) (out @ [Some nx])"
        unfolding out_ok_def
      proof (intro allI impI)
        fix q assume q: "q < length (out @ [Some nx])" "q < length idx"
        show "(out @ [Some nx]) ! q = js_get_at (xref[nat k := Some nx]) (idx ! q) \<and>
              (out @ [Some nx]) ! q \<noteq> Some (- 1)"
        proof (cases "q < into")
          case True
          with "1.prems"(4,6) q have o: "out ! q = js_get_at xref (idx ! q)" "out ! q \<noteq> Some (- 1)"
            by (auto simp: out_ok_def)
          have "idx ! q \<noteq> Some k"
          proof
            assume "idx ! q = Some k"
            with o(1) kr xk have "out ! q = Some (- 1)" by (simp add: js_get_at_def js_get_def)
            with o(2) show False by simp
          qed
          then have "js_get_at (xref[nat k := Some nx]) (idx ! q) = js_get_at xref (idx ! q)"
            using kr by (cases "idx ! q") (auto simp: js_get_at_def js_get_def nth_list_update nat_eq_iff)
          with o True "1.prems"(4) show ?thesis by (simp add: nth_append)
        next
          case F: False
          with q "1.prems"(4) have "q = into" by simp
          moreover have "idx ! into = Some k" using e k by simp
          ultimately show ?thesis using "1.prems"(3,4) kr
            by (simp add: nth_append js_get_at_def js_get_def)
        qed
      qed
      have "\<exists>xref' out' nx'. reorderIndices_loop n idx (into + 1)
               (js_set_at xref (js_get idx (int into)) (Some nx))
               (js_set out (int into) (Some nx)) (nx + 1)
               = Inr (xref', out') \<and> length xref' = nat n \<and> xref_ok xref' nx' \<and>
               length out' = length idx \<and> out_ok idx xref' out'"
      proof (rule "1.IH"(2)[OF True refl _ refl])
        show "\<not> js_get_at xref (js_get idx (int into)) \<noteq> Some (- 1)" by (simp add: gk gx)
        show "\<not> (case js_get idx (int into) of None \<Rightarrow> False | Some t \<Rightarrow> n \<le> t)"
          using kn by (simp add: gk)
        show "length (js_set_at xref (js_get idx (int into)) (Some nx)) = nat n"
          using "1.prems"(1) by (simp add: gk set)
        show "xref_ok (js_set_at xref (js_get idx (int into)) (Some nx)) (nx + 1)"
          using xok' by (simp add: gk set)
        show "0 \<le> nx + 1" using "1.prems"(3) by simp
        show "length (js_set out (int into) (Some nx)) = into + 1"
          using "1.prems"(4) by (simp add: app)
        show "into + 1 \<le> length idx" using True by simp
        show "out_ok idx (js_set_at xref (js_get idx (int into)) (Some nx))
                (js_set out (int into) (Some nx))"
          using ok' by (simp add: gk set app)
      qed
      then show ?thesis by (simp only: step)
    qed
  qed
qed

lemma js_get_js_set_at:
  "js_get (js_set_at xs (Some i) v) j = (if j = i \<and> 0 \<le> i then v else js_get xs j)"
  by (simp add: js_set_at_def js_get_js_set)

lemma js_get_fold_set:
  "js_get (fold (\<lambda>i out. js_set_at out (Some (b + int i)) (g i)) [0 ..< m] out) j =
     (if 0 \<le> j \<and> b \<le> j \<and> j < b + int m then g (nat (j - b)) else js_get out j)"
proof (induction m)
  case 0
  then show ?case by auto
next
  case (Suc m)
  have "js_get (fold (\<lambda>i out. js_set_at out (Some (b + int i)) (g i)) [0 ..< Suc m] out) j =
        (if j = b + int m \<and> 0 \<le> b + int m then g m
         else js_get (fold (\<lambda>i out. js_set_at out (Some (b + int i)) (g i)) [0 ..< m] out) j)"
    by (simp add: js_get_js_set_at)
  also have "\<dots> = (if 0 \<le> j \<and> b \<le> j \<and> j < b + int (Suc m) then g (nat (j - b))
                    else js_get out j)"
    unfolding Suc by auto
  finally show ?case .
qed

lemma js_get_reorderVertex:
  "js_get (reorderVertex nc ein v (Some t) out) j =
     (if 0 \<le> j \<and> nc * t \<le> j \<and> j < nc * t + nc then js_get ein (nc * v + (j - nc * t))
      else js_get out j)"
proof -
  have "js_get (reorderVertex nc ein v (Some t) out) j =
        js_get (fold (\<lambda>i out. js_set_at out (Some (nc * t + int i)) (js_get ein (nc * v + int i)))
                 [0 ..< nat nc] out) j"
    by (simp add: reorderVertex_def)
  also have "\<dots> = (if 0 \<le> j \<and> nc * t \<le> j \<and> j < nc * t + int (nat nc)
                    then js_get ein (nc * v + int (nat (j - nc * t))) else js_get out j)"
    by (rule js_get_fold_set)
  also have "\<dots> = (if 0 \<le> j \<and> nc * t \<le> j \<and> j < nc * t + nc
                    then js_get ein (nc * v + (j - nc * t)) else js_get out j)"
    by auto
  finally show ?thesis .
qed

lemma slot_disjoint:
  fixes nc t t0 i :: int
  assumes "t \<noteq> t0" "0 \<le> i" "i < nc"
  shows "\<not> (nc * t0 \<le> nc * t + i \<and> nc * t + i < nc * t0 + nc)"
proof
  assume a: "nc * t0 \<le> nc * t + i \<and> nc * t + i < nc * t0 + nc"
  have nc: "0 < nc" using assms by simp
  from assms(1) consider "t + 1 \<le> t0" | "t0 + 1 \<le> t" by linarith
  then show False
  proof cases
    case 1
    then have "nc * (t + 1) \<le> nc * t0" using nc by (simp add: mult_left_mono)
    then show False using a assms by (simp add: distrib_left)
  next
    case 2
    then have "nc * (t0 + 1) \<le> nc * t" using nc by (simp add: mult_left_mono)
    then show False using a assms by (simp add: distrib_left)
  qed
qed

lemma reorderVertices_loop_inv:
  assumes "length xref = nat n" "xref_ok xref nx" "into \<le> nat n" "vert_ok xref nc ein into out"
  shows "vert_ok xref nc ein (nat n) (reorderVertices_loop n xref nc ein into out)"
  using assms
proof (induction n xref nc ein into out rule: reorderVertices_loop.induct)
  case (1 n xref nc ein into out)
  show ?case
  proof (cases "int into < n")
    case False
    with "1.prems" have "into = nat n" by simp
    with "1.prems" False show ?thesis by (subst reorderVertices_loop.simps) simp
  next
    case True
    then have lt: "into < length xref" using "1.prems"(1) by simp
    with "1.prems"(2) obtain t0 where t0: "xref ! into = Some t0" "t0 = - 1 \<or> 0 \<le> t0"
      unfolding xref_ok_def by blast
    have g0: "js_get xref (int into) = Some t0" using lt t0 by (simp add: js_get_def)
    define out' where "out' = reorderVertex nc ein (int into) (Some t0) out"
    have step: "reorderVertices_loop n xref nc ein into out =
                reorderVertices_loop n xref nc ein (into + 1) out'"
      using True by (subst reorderVertices_loop.simps) (simp add: g0 out'_def)
    have ok': "vert_ok xref nc ein (into + 1) out'"
      unfolding vert_ok_def
    proof (intro allI impI, elim conjE)
      fix v t i
      assume v: "v < into + 1" and t: "js_get xref (int v) = Some t" "0 \<le> t"
        and i: "0 \<le> i" "i < nc"
      have nc: "0 < nc" using i by simp
      show "js_get out' (nc * t + i) = js_get ein (nc * int v + i)"
      proof (cases "v = into")
        case True
        with t g0 have "t = t0" by simp
        moreover have "0 \<le> nc * t + i" using t i nc by simp
        ultimately show ?thesis using i True
          by (simp add: out'_def js_get_reorderVertex)
      next
        case False
        with v have vlt: "v < into" by simp
        have "t \<noteq> t0"
        proof
          assume "t = t0"
          with t g0 have "xref ! v = xref ! into" "xref ! v \<noteq> Some (- 1)"
            using vlt lt by (auto simp: js_get_def split: if_splits)
          with "1.prems"(2) vlt lt have "v = into" unfolding xref_ok_def by (meson less_trans)
          with vlt show False by simp
        qed
        from slot_disjoint[OF this i]
        have "js_get out' (nc * t + i) = js_get out (nc * t + i)"
          unfolding out'_def js_get_reorderVertex by auto
        also have "\<dots> = js_get ein (nc * int v + i)"
          using "1.prems"(4) vlt t i unfolding vert_ok_def by blast
        finally show ?thesis .
      qed
    qed
    have "vert_ok xref nc ein (nat n) (reorderVertices_loop n xref nc ein (into + 1) out')"
      unfolding out'_def g0[symmetric]
      apply (rule "1.IH"[OF True])
      using "1.prems" True ok' by (simp_all add: out'_def g0)
    then show ?thesis by (simp only: step)
  qed
qed

lemma reorderIndices_total:
  "\<exists>xref out nx. reorderIndices_loop n idx 0 (replicate (nat n) (Some (- 1))) [] 0 = Inr (xref, out) \<and>
      length xref = nat n \<and> xref_ok xref nx \<and> length out = length idx \<and> out_ok idx xref out"
  by (rule reorderIndices_loop_inv) (simp_all add: xref_ok_replicate out_ok_def)

lemma reorderAttribute_components:
  assumes len: "length xref = nat n" and xok: "xref_ok xref nx"
    and k: "k < n" and o: "js_get_at xref (Some k) \<noteq> Some (- 1)"
  shows "vertexComponents (reorderAttribute n xref attr) (js_get_at xref (Some k)) =
         vertexComponents attr (Some k)"
proof (cases "attrValues attr")
  case None
  then show ?thesis by (simp add: vertexComponents_def reorderAttribute_def)
next
  case (Some ein)
  define nc where "nc = componentsPerAttribute attr"
  define E where "E = reorderVertices_loop n xref nc ein 0 []"
  have E: "vert_ok xref nc ein (nat n) E"
    unfolding E_def by (rule reorderVertices_loop_inv[OF len xok]) (simp_all add: vert_ok_def)
  have a': "attrValues (reorderAttribute n xref attr) = Some E"
    "componentsPerAttribute (reorderAttribute n xref attr) = nc"
    by (simp_all add: reorderAttribute_def Some E_def nc_def)
  have "\<And>i. i < nat nc \<Longrightarrow>
      js_get_at E (map_option (\<lambda>t. nc * t + int i) (js_get_at xref (Some k))) =
      js_get ein (nc * k + int i)"
  proof -
    fix i :: nat assume i: "i < nat nc"
    then have nc: "0 < nc" and i': "0 \<le> int i" "int i < nc" by simp_all
    show "js_get_at E (map_option (\<lambda>t. nc * t + int i) (js_get_at xref (Some k))) =
          js_get ein (nc * k + int i)"
    proof (cases "0 \<le> k")
      case False
      then have "k + 1 \<le> 0" by simp
      then have "nc * (k + 1) \<le> 0" using nc by (simp add: mult_le_0_iff)
      then have "nc * k + int i < 0" using i' by (simp add: distrib_left)
      then have "js_get ein (nc * k + int i) = None" by (simp add: js_get_def)
      moreover have "js_get_at xref (Some k) = None" using False by (simp add: js_get_at_def js_get_def)
      ultimately show ?thesis by (simp add: js_get_at_def)
    next
      case True
      with k len have kl: "nat k < length xref" by simp
      with xok obtain t where t: "xref ! nat k = Some t" "t = - 1 \<or> 0 \<le> t"
        unfolding xref_ok_def by blast
      have nk: "int (nat k) = k" using True by simp
      have g: "js_get xref k = Some t" using kl t True by (simp add: js_get_def)
      with o have "t \<noteq> - 1" by (simp add: js_get_at_def)
      with t have t0: "0 \<le> t" by simp
      have "nat k < nat n" using kl len by simp
      with E have "\<forall>t. js_get xref (int (nat k)) = Some t \<and> 0 \<le> t \<longrightarrow>
        (\<forall>i. 0 \<le> i \<and> i < nc \<longrightarrow> js_get E (nc * t + i) = js_get ein (nc * int (nat k) + i))"
        unfolding vert_ok_def by blast
      with g t0 i' have "js_get E (nc * t + int i) = js_get ein (nc * k + int i)"
        unfolding nk by blast
      then show ?thesis using g by (simp add: js_get_at_def)
    qed
  qed
  then show ?thesis
    by (simp add: vertexComponents_def a' Some nc_def[symmetric] js_get_at_def)
qed

text \<open>The index loop never raises: an index at or beyond the vertex count reads
  \<open>undefined\<close> from the cross reference, \<open>undefined\<close> differs from \<open>-1\<close>, and the
  branch holding the range check is not entered. So the filter fails only where
  \<open>computeNumberOfVertices\<close> does.\<close>

lemma reorderForPreVertexCache_returns:
  assumes "computeNumberOfVertices m = Inr n"
  shows "\<exists>r. reorderForPreVertexCache (Some m) = Inr r"
proof (cases "indexList m")
  case None
  then show ?thesis by (simp add: reorderForPreVertexCache_def assms)
next
  case (Some idx)
  obtain xref out where
    "reorderIndices_loop n idx 0 (replicate (nat n) (Some (- 1))) [] 0 = Inr (xref, out)"
    using reorderIndices_total[of n idx] by blast
  then show ?thesis by (simp add: reorderForPreVertexCache_def assms Some)
qed

text \<open>
  Claim C1. The claim asks for a DeveloperError when the index list holds an index at or
  beyond the vertex count. The triangle mesh has three vertices and the index list
  \<open>[0, 1, 3]\<close>; the filter returns normally, with the index list \<open>[0, 1, undefined]\<close>
  and the attribute cut down to the two vertices that received a new index.
\<close>

theorem reorderForPreVertexCache_index_out_of_range:
  "reorderForPreVertexCache (Some (triangleMesh (Some [Some 0, Some 1, Some 3]))) =
     Inr (Some \<lparr>attributes =
                  [(''position'',
                    positionAttribute [Some 0, Some 0, Some 0, Some 1, Some 0, Some 0])],
                indexList = Some [Some 0, Some 1, None],
                primitiveType = TRIANGLES, boundingSphere = None\<rparr>)"
  by code_simp

text \<open>
  Claim C2. The claim asks for a no-op when the index list is absent. The guard on the index
  list covers the index loop only; the vertex loop still runs, with every cross reference
  at \<open>-1\<close>, so every vertex is stored under negative keys and the attribute is left with an
  empty array. For the triangle mesh without an index list the nine position values are gone.
\<close>

theorem reorderForPreVertexCache_without_indexList:
  "reorderForPreVertexCache (Some (triangleMesh None)) =
     Inr (Some \<lparr>attributes = [(''position'', positionAttribute [])],
                indexList = None, primitiveType = TRIANGLES, boundingSphere = None\<rparr>)"
  by code_simp

text \<open>
  Claim C3. For a mesh with an index list in which every index is below the vertex count,
  the filter succeeds, keeps the length of the index list and the attribute names, and
  preserves the vertex-index correspondence: at every position \<open>p\<close> of the index stream
  and for every attribute, the components found under the new index at \<open>p\<close> in the
  reordered values are those found under the old index at \<open>p\<close> in the original values.
\<close>

theorem reorderForPreVertexCache_correspondence:
  assumes idx: "indexList m = Some idx" and n: "computeNumberOfVertices m = Inr n"
    and valid: "\<forall>x\<in>set idx. \<exists>k. x = Some k \<and> k < n"
  shows "\<exists>m' out. reorderForPreVertexCache (Some m) = Inr (Some m') \<and>
           indexList m' = Some out \<and> length out = length idx \<and>
           map fst (attributes m') = map fst (attributes m) \<and>
           (\<forall>p < length idx. \<forall>j < length (attributes m).
              vertexComponents (snd (attributes m' ! j)) (out ! p) =
              vertexComponents (snd (attributes m ! j)) (idx ! p))"
proof -
  obtain xref out nx where loop:
    "reorderIndices_loop n idx 0 (replicate (nat n) (Some (- 1))) [] 0 = Inr (xref, out)"
    and len: "length xref = nat n" and xok: "xref_ok xref nx"
    and lout: "length out = length idx" and ook: "out_ok idx xref out"
    using reorderIndices_total[of n idx] by blast
  define m' where "m' = m\<lparr>indexList := Some out,
     attributes := map (\<lambda>(property, attr). (property, reorderAttribute n xref attr)) (attributes m)\<rparr>"
  have res: "reorderForPreVertexCache (Some m) = Inr (Some m')"
    by (simp add: reorderForPreVertexCache_def n idx loop m'_def)
  have names: "map fst (attributes m') = map fst (attributes m)"
    by (simp add: m'_def case_prod_unfold comp_def)
  have corr: "\<forall>p < length idx. \<forall>j < length (attributes m).
              vertexComponents (snd (attributes m' ! j)) (out ! p) =
              vertexComponents (snd (attributes m ! j)) (idx ! p)"
  proof (intro allI impI)
    fix p j assume p: "p < length idx" and j: "j < length (attributes m)"
    from valid p obtain k where k: "idx ! p = Some k" "k < n"
      using nth_mem by blast
    from ook p lout have o: "out ! p = js_get_at xref (Some k)" "js_get_at xref (Some k) \<noteq> Some (- 1)"
      unfolding out_ok_def using k by auto
    have "snd (attributes m' ! j) = reorderAttribute n xref (snd (attributes m ! j))"
      using j by (simp add: m'_def split_beta)
    then show "vertexComponents (snd (attributes m' ! j)) (out ! p) =
               vertexComponents (snd (attributes m ! j)) (idx ! p)"
      using reorderAttribute_components[OF len xok k(2) o(2)] o(1) k(1) by simp
  qed
  have il: "indexList m' = Some out" by (simp add: m'_def)
  show ?thesis using res il lout names corr by blast
qed

theorem reorderForPreVertexCache_correspondence_witness:
  "indexList (quadMesh (Some [Some 2, Some 0, Some 3])) = Some [Some 2, Some 0, Some 3] \<and>
   computeNumberOfVertices (quadMesh (Some [Some 2, Some 0, Some 3])) = Inr 4 \<and>
   list_all (\<lambda>x. x \<noteq> None \<and> the x < 4) [Some 2, Some 0, Some (3::int)] \<and>
   (\<exists>m' out.
      reorderForPreVertexCache (Some (quadMesh (Some [Some 2, Some 0, Some 3]))) = Inr (Some m') \<and>
      indexList m' = Some out \<and> length out = 3 \<and>
      map fst (attributes m') = [''position''] \<and>
      vertexComponents (snd (attributes m' ! 0)) (out ! 0) = [Some 0, Some 1, Some 0] \<and>
      vertexComponents (snd (attributes m' ! 0)) (out ! 1) = [Some 0, Some 0, Some 0] \<and>
      vertexComponents (snd (attributes m' ! 0)) (out ! 2) = [Some 1, Some 1, Some 0])"
proof -
  let ?idx = "[Some 2, Some 0, Some (3::int)]"
  let ?m = "quadMesh (Some ?idx)"
  have h1: "indexList ?m = Some ?idx"
    by (simp add: quadMesh_def)
  have h2: "computeNumberOfVertices ?m = Inr 4"
    by (simp add: quadMesh_def computeNumberOfVertices_def positionAttribute_def
        attributeVertexCount_def quadPositions_def trianglePositions_def)
  have h3: "\<forall>x\<in>set ?idx. \<exists>k. x = Some k \<and> k < (4::int)"
    by simp
  from reorderForPreVertexCache_correspondence[OF h1 h2 h3] obtain m' out where
    r: "reorderForPreVertexCache (Some ?m) = Inr (Some m')" "indexList m' = Some out"
      "length out = length ?idx" "map fst (attributes m') = map fst (attributes ?m)"
    and c: "\<forall>p < length ?idx. \<forall>j < length (attributes ?m).
              vertexComponents (snd (attributes m' ! j)) (out ! p) =
              vertexComponents (snd (attributes ?m ! j)) (?idx ! p)"
    by blast
  have a: "attributes ?m = [(''position'', positionAttribute quadPositions)]"
    by (simp add: quadMesh_def)
  have v: "vertexComponents (positionAttribute quadPositions) (Some 2) = [Some 0, Some 1, Some 0]"
    "vertexComponents (positionAttribute quadPositions) (Some 0) = [Some 0, Some 0, Some 0]"
    "vertexComponents (positionAttribute quadPositions) (Some 3) = [Some 1, Some 1, Some 0]"
    by code_simp+
  from c have
    "vertexComponents (snd (attributes m' ! 0)) (out ! 0) =
       vertexComponents (snd (attributes ?m ! 0)) (?idx ! 0)"
    "vertexComponents (snd (attributes m' ! 0)) (out ! 1) =
       vertexComponents (snd (attributes ?m ! 0)) (?idx ! 1)"
    "vertexComponents (snd (attributes m' ! 0)) (out ! 2) =
       vertexComponents (snd (attributes ?m ! 0)) (?idx ! 2)"
    by (simp_all add: a)
  then have
    "vertexComponents (snd (attributes m' ! 0)) (out ! 0) = [Some 0, Some 1, Some 0]"
    "vertexComponents (snd (attributes m' ! 0)) (out ! 1) = [Some 0, Some 0, Some 0]"
    "vertexComponents (snd (attributes m' ! 0)) (out ! 2) = [Some 1, Some 1, Some 0]"
    by (simp_all add: a v)
  moreover have "map fst (attributes m') = [''position'']" using r(4) by (simp add: a)
  moreover have "length out = 3" using r(3) by simp
  ultimately show ?thesis using h1 h2 r(1,2) by auto
qed

section \<open>Properties of combine: errors\<close>

lemma isDeveloperError_bindE_iff:
  "isDeveloperError (bindE r f) \<longleftrightarrow>
     isDeveloperError r \<or> (\<exists>x. r = Inr x \<and> isDeveloperError (f x))"
  by (cases r rule: isDeveloperError.cases) (auto simp: bindE_def)

lemma isDeveloperError_simps2 [simp]:
  "\<not> isDeveloperError (Inl TypeError)" "\<not> isDeveloperError (Inr x)"
  by simp_all

lemma inAllGeometries_no_DeveloperError:
  "\<not> isDeveloperError (inAllGeometries name attribute others n)"
  by (induction others arbitrary: n) (auto split: option.splits)

lemma findAttributes_loop_no_DeveloperError:
  "\<not> isDeveloperError (findAttributes_loop attrs others)"
proof (induction attrs)
  case Nil
  then show ?case by simp
next
  case (Cons a attrs)
  obtain name attribute where a: "a = (name, attribute)" by (cases a)
  show ?case unfolding a
    by (auto simp: Cons inAllGeometries_no_DeveloperError isDeveloperError_bindE_iff
        split: option.splits)
qed

lemma combineValues_loop_no_DeveloperError:
  "\<not> isDeveloperError (combineValues_loop store name instances acc)"
  by (induction store name instances acc rule: combineValues_loop.induct)
     (auto split: option.splits)

lemma combineAttributes_loop_no_DeveloperError:
  "\<not> isDeveloperError (combineAttributes_loop toElement attrs instances)"
proof (induction attrs)
  case Nil
  then show ?case by simp
next
  case (Cons a attrs)
  obtain name attribute where a: "a = (name, attribute)" by (cases a)
  show ?case unfolding a
    by (auto simp: Cons combineValues_loop_no_DeveloperError isDeveloperError_bindE_iff
        split: option.splits)
qed

lemma numberOfIndices_loop_no_DeveloperError:
  "\<not> isDeveloperError (numberOfIndices_loop instances n)"
  by (induction instances arbitrary: n) (auto split: option.splits)

lemma advanceOffset_no_DeveloperError:
  "\<not> isDeveloperError (advanceOffset attrs offset)"
  by (auto simp: advanceOffset_def split: list.splits option.splits)

lemma combineIndices_loop_no_DeveloperError:
  "\<not> isDeveloperError (combineIndices_loop bits instances offset acc)"
  by (induction bits instances offset acc rule: combineIndices_loop.induct)
     (auto split: option.splits simp: advanceOffset_no_DeveloperError
        isDeveloperError_bindE_iff)

lemma combine_merge_no_DeveloperError:
  "\<not> isDeveloperError
     (bindE (findAttributesInAllGeometries instances) (\<lambda>attrs.
      bindE (combineAttributes_loop toElement attrs instances) (\<lambda>attrs.
      bindE (numberOfIndices_loop instances 0) (\<lambda>num.
        (let bits = (if num < 60 * 1024 then 16 else 32) in
         bindE (combineIndices_loop bits instances (Some 0) (replicate num (Some 0), 0))
           (\<lambda>combinedIndexList. Inr (g attrs combinedIndexList)))))))"
  by (auto simp: findAttributesInAllGeometries_def findAttributes_loop_no_DeveloperError
        combineAttributes_loop_no_DeveloperError numberOfIndices_loop_no_DeveloperError
        combineIndices_loop_no_DeveloperError isDeveloperError_bindE_iff Let_def
        split: list.splits)

text \<open>
  Claim C5. \<open>combine\<close> fails with a DeveloperError exactly when the instance list is
  absent or empty, or it has at least two instances and the model matrix of some instance
  differs from that of the first. A list of one instance never fails: the result is that
  instance's geometry, unchanged.
\<close>

theorem combine_DeveloperError_iff:
  "(isDeveloperError (combine toElement sphereUnion instances) \<longleftrightarrow>
      instances = None \<or> instances = Some [] \<or>
      (\<exists>first second others. instances = Some (first # second # others) \<and>
         (\<exists>inst \<in> set (second # others). modelMatrix inst \<noteq> modelMatrix first))) \<and>
   combine toElement sphereUnion (Some [inst]) = Inr (geometry inst)"
proof -
  have single: "combine toElement sphereUnion (Some [inst]) = Inr (geometry inst)"
    by (simp add: combine_def)
  have "isDeveloperError (combine toElement sphereUnion instances) \<longleftrightarrow>
      instances = None \<or> instances = Some [] \<or>
      (\<exists>first second others. instances = Some (first # second # others) \<and>
         (\<exists>inst \<in> set (second # others). modelMatrix inst \<noteq> modelMatrix first))"
  proof (cases instances)
    case None
    then show ?thesis by (simp add: combine_def)
  next
    case (Some xs)
    show ?thesis
    proof (cases xs)
      case Nil
      with Some show ?thesis by (simp add: combine_def)
    next
      case (Cons first rest)
      show ?thesis
      proof (cases rest)
        case Nil
        with Some Cons show ?thesis by (simp add: combine_def)
      next
        case C2: (Cons second others)
        show ?thesis
        proof (cases "\<exists>inst \<in> set (second # others). modelMatrix inst \<noteq> modelMatrix first")
          case True
          then show ?thesis unfolding Some Cons C2
            by (simp add: combine_def Matrix4_equals_def)
        next
          case False
          then have "combine toElement sphereUnion instances =
            bindE (findAttributesInAllGeometries xs) (\<lambda>attrs.
            bindE (combineAttributes_loop toElement attrs xs) (\<lambda>attrs.
            bindE (numberOfIndices_loop xs 0) (\<lambda>num.
              (let bits = (if num < 60 * 1024 then 16 else 32) in
               bindE (combineIndices_loop bits xs (Some 0) (replicate num (Some 0), 0))
                 (\<lambda>combinedIndexList.
                    Inr \<lparr>attributes = attrs, indexList = Some combinedIndexList,
                         primitiveType = primitiveType (geometry first),
                         boundingSphere = combineBoundingSpheres sphereUnion xs None\<rparr>)))))"
            unfolding Some Cons C2 by (simp add: combine_def Matrix4_equals_def)
          then have "\<not> isDeveloperError (combine toElement sphereUnion instances)"
            using combine_merge_no_DeveloperError by simp
          with False show ?thesis unfolding Some Cons C2 by simp
        qed
      qed
    qed
  qed
  with single show ?thesis by blast
qed

section \<open>Properties of combine: the merged geometry\<close>

lemma typed_copy_prefix:
  assumes "m \<le> length src" "k + length src \<le> length vals"
  shows "fold (\<lambda>j (vals, k). (typedArray_set vals k (f (js_get src (int j))), k + 1)) [0 ..< m] (vals, k)
         = (take k vals @ map f (take m src) @ drop (k + m) vals, k + m)"
  using assms
proof (induction m)
  case 0
  then show ?case by simp
next
  case (Suc m)
  let ?cur = "take k vals @ map f (take m src) @ drop (k + m) vals"
  have lt: "k + m < length vals" using Suc.prems by simp
  have len: "length (take k vals @ map f (take m src)) = k + m" using Suc.prems by simp
  have "typedArray_set ?cur (k + m) (f (js_get src (int m)))
        = take k vals @ map f (take (Suc m) src) @ drop (k + Suc m) vals"
  proof -
    have g: "js_get src (int m) = src ! m" using Suc.prems by (simp add: js_get_def)
    have d: "drop (k + m) vals = vals ! (k + m) # drop (k + Suc m) vals"
      using lt by (simp add: Cons_nth_drop_Suc)
    have "?cur[k + m := f (src ! m)] =
          ((take k vals @ map f (take m src)) @ drop (k + m) vals)[k + m := f (src ! m)]"
      by simp
    also have "\<dots> = (take k vals @ map f (take m src)) @ (drop (k + m) vals)[0 := f (src ! m)]"
      unfolding list_update_append len by simp
    also have "\<dots> = take k vals @ map f (take m src) @ [f (src ! m)] @ drop (k + Suc m) vals"
      by (simp add: d)
    also have "\<dots> = take k vals @ map f (take (Suc m) src) @ drop (k + Suc m) vals"
      using Suc.prems by (simp add: take_Suc_conv_app_nth)
    finally show ?thesis using lt Suc.prems by (simp add: typedArray_set_def g)
  qed
  then show ?case using Suc by simp
qed

lemma typed_copy:
  assumes "k + length src \<le> length vals"
  shows "fold (\<lambda>j (vals, k). (typedArray_set vals k (f (js_get src (int j))), k + 1))
           [0 ..< length src] (vals, k)
         = (take k vals @ map f src @ drop (k + length src) vals, k + length src)"
  using typed_copy_prefix[OF le_refl assms] by simp

lemma copyValues_eq:
  "k + length src \<le> length vals \<Longrightarrow>
   copyValues store src (vals, k) =
     (take k vals @ map store src @ drop (k + length src) vals, k + length src)"
  using typed_copy[of k src vals store] by (simp add: copyValues_def)

lemma combineValues_loop_eq:
  assumes "\<forall>inst\<in>set insts. \<exists>a vals. map_of (attributes (geometry inst)) name = Some a \<and>
             attrValues a = Some vals"
    and "k + (\<Sum>inst\<leftarrow>insts. length (instanceValues name inst)) \<le> length vals"
  shows "combineValues_loop store name insts (vals, k) =
         Inr (take k vals @ map store (concat (map (instanceValues name) insts)) @
              drop (k + (\<Sum>inst\<leftarrow>insts. length (instanceValues name inst))) vals)"
  using assms
proof (induction insts arbitrary: vals k)
  case Nil
  then show ?case by simp
next
  case (Cons inst insts)
  from Cons.prems(1) obtain a src where a: "map_of (attributes (geometry inst)) name = Some a"
    "attrValues a = Some src" by auto
  have iv: "instanceValues name inst = src" by (simp add: instanceValues_def a)
  let ?rest = "\<Sum>inst\<leftarrow>insts. length (instanceValues name inst)"
  have fit: "k + length src \<le> length vals" using Cons.prems(2) by (simp add: iv)
  let ?vals' = "take k vals @ map store src @ drop (k + length src) vals"
  have len': "length ?vals' = length vals" using fit by simp
  have "combineValues_loop store name (inst # insts) (vals, k) =
        combineValues_loop store name insts (?vals', k + length src)"
    by (simp add: a copyValues_eq[OF fit])
  also have "\<dots> = Inr (take (k + length src) ?vals' @
                        map store (concat (map (instanceValues name) insts)) @
                        drop (k + length src + ?rest) ?vals')"
    apply (rule Cons.IH)
    using Cons.prems len' by (simp_all add: iv)
  also have "take (k + length src) ?vals' = take k vals @ map store src"
    using fit by simp
  also have "drop (k + length src + ?rest) ?vals' = drop (k + (length src + ?rest)) vals"
    using fit by (simp add: ac_simps)
  finally show ?case by (simp add: iv)
qed

lemma combineValues_loop_fresh:
  assumes "\<forall>inst\<in>set insts. \<exists>a vals. map_of (attributes (geometry inst)) name = Some a \<and>
             attrValues a = Some vals"
    and "n = (\<Sum>inst\<leftarrow>insts. length (instanceValues name inst))"
  shows "combineValues_loop store name insts (createTypedArray d n, 0) =
         Inr (map store (concat (map (instanceValues name) insts)))"
  using combineValues_loop_eq[OF assms(1), of 0 "createTypedArray d n" store] assms(2)
  by (simp add: createTypedArray_def)

lemma map_of_has_values:
  assumes "list_all (\<lambda>(name, attribute). attrValues attribute \<noteq> None) attrs"
    and "map_of attrs name = Some a"
  shows "\<exists>vals. attrValues a = Some vals"
proof -
  from assms(2) have "(name, a) \<in> set attrs" by (rule map_of_SomeD)
  with assms(1) show ?thesis by (auto simp: list_all_iff)
qed

lemma inAllGeometries_eq:
  assumes "\<forall>inst\<in>set others.
             list_all (\<lambda>(name, attribute). attrValues attribute \<noteq> None) (attributes (geometry inst))"
  shows "inAllGeometries name attribute others n =
         Inr (if survives others (name, attribute)
              then Some (n + (\<Sum>inst\<leftarrow>others. length (instanceValues name inst))) else None)"
  using assms
proof (induction others arbitrary: n)
  case Nil
  then show ?case by (simp add: survives_def)
next
  case (Cons inst others)
  show ?case
  proof (cases "map_of (attributes (geometry inst)) name")
    case None
    then show ?thesis by (simp add: survives_def)
  next
    case (Some other)
    with Cons.prems obtain vals where v: "attrValues other = Some vals"
      using map_of_has_values by fastforce
    have iv: "instanceValues name inst = vals" by (simp add: instanceValues_def Some v)
    have IH: "\<And>n. inAllGeometries name attribute others n =
         Inr (if survives others (name, attribute)
              then Some (n + (\<Sum>inst\<leftarrow>others. length (instanceValues name inst))) else None)"
      using Cons by simp
    show ?thesis
      by (simp add: Some v IH iv) (auto simp: survives_def Some)
  qed
qed

lemma findAttributes_loop_eq:
  assumes "list_all (\<lambda>(name, attribute). attrValues attribute \<noteq> None) attrs"
    and "\<forall>inst\<in>set others.
             list_all (\<lambda>(name, attribute). attrValues attribute \<noteq> None) (attributes (geometry inst))"
  shows "findAttributes_loop attrs others =
         Inr (map (\<lambda>(name, attribute).
                (name, \<lparr>componentDatatype = componentDatatype attribute,
                        componentsPerAttribute = componentsPerAttribute attribute,
                        normalizeFlag = normalizeFlag attribute,
                        attrValues = Some (createTypedArray (componentDatatype attribute)
                          (length (the (attrValues attribute)) +
                           (\<Sum>inst\<leftarrow>others. length (instanceValues name inst))))\<rparr>))
              (filter (survives others) attrs))"
  using assms(1)
proof (induction attrs)
  case Nil
  then show ?case by simp
next
  case (Cons e attrs)
  obtain name attribute where e: "e = (name, attribute)" by (cases e)
  from Cons.prems e obtain vals where v: "attrValues attribute = Some vals" by auto
  from Cons have IH: "findAttributes_loop attrs others =
         Inr (map (\<lambda>(name, attribute).
                (name, \<lparr>componentDatatype = componentDatatype attribute,
                        componentsPerAttribute = componentsPerAttribute attribute,
                        normalizeFlag = normalizeFlag attribute,
                        attrValues = Some (createTypedArray (componentDatatype attribute)
                          (length (the (attrValues attribute)) +
                           (\<Sum>inst\<leftarrow>others. length (instanceValues name inst))))\<rparr>))
              (filter (survives others) attrs))" by simp
  show ?case
    unfolding e
    by (simp add: v inAllGeometries_eq[OF assms(2)] IH bindE_def)
qed

lemma survives_lookup:
  assumes "survives others (name, attribute)" "inst \<in> set others"
    and "list_all (\<lambda>(name, attribute). attrValues attribute \<noteq> None) (attributes (geometry inst))"
  shows "\<exists>a vals. map_of (attributes (geometry inst)) name = Some a \<and> attrValues a = Some vals"
proof -
  from assms(1,2) obtain a where a: "map_of (attributes (geometry inst)) name = Some a"
    by (auto simp: survives_def list_all_iff split: option.splits)
  from map_of_has_values[OF assms(3) a] a show ?thesis by simp
qed

lemma combineAttributes_loop_eq:
  assumes d: "distinct (map fst (attributes (geometry first)))"
    and sub: "set sel \<subseteq> set (attributes (geometry first))"
    and sv: "\<forall>e\<in>set sel. survives others e"
    and hv: "\<forall>inst\<in>set (first # others).
             list_all (\<lambda>(name, attribute). attrValues attribute \<noteq> None) (attributes (geometry inst))"
  shows "combineAttributes_loop toElement
           (map (\<lambda>(name, attribute).
                (name, \<lparr>componentDatatype = componentDatatype attribute,
                        componentsPerAttribute = componentsPerAttribute attribute,
                        normalizeFlag = normalizeFlag attribute,
                        attrValues = Some (createTypedArray (componentDatatype attribute)
                          (length (the (attrValues attribute)) +
                           (\<Sum>inst\<leftarrow>others. length (instanceValues name inst))))\<rparr>)) sel)
           (first # others) =
         Inr (map (\<lambda>(name, attribute).
                (name, \<lparr>componentDatatype = componentDatatype attribute,
                        componentsPerAttribute = componentsPerAttribute attribute,
                        normalizeFlag = normalizeFlag attribute,
                        attrValues = Some (map (toElement (componentDatatype attribute))
                          (concat (map (instanceValues name) (first # others))))\<rparr>))
              sel)"
  using sub sv
proof (induction sel)
  case Nil
  then show ?case by simp
next
  case (Cons e sel)
  obtain name attribute where e: "e = (name, attribute)" by (cases e)
  from Cons.prems e have mem: "(name, attribute) \<in> set (attributes (geometry first))"
    and s: "survives others (name, attribute)" by auto
  from d mem have m0: "map_of (attributes (geometry first)) name = Some attribute"
    by (simp add: map_of_is_SomeI)
  from hv mem obtain vals where v: "attrValues attribute = Some vals"
    by (auto simp: list_all_iff)
  have iv0: "instanceValues name first = vals" by (simp add: instanceValues_def m0 v)
  have look: "\<forall>inst\<in>set (first # others). \<exists>a vals.
      map_of (attributes (geometry inst)) name = Some a \<and> attrValues a = Some vals"
    using survives_lookup[OF s] hv m0 v by auto
  have cv: "combineValues_loop (toElement (componentDatatype attribute)) name (first # others)
          (createTypedArray (componentDatatype attribute)
             (length vals + (\<Sum>inst\<leftarrow>others. length (instanceValues name inst))), 0) =
        Inr (map (toElement (componentDatatype attribute))
               (concat (map (instanceValues name) (first # others))))"
    by (rule combineValues_loop_fresh[OF look]) (simp add: iv0)
  have IH: "combineAttributes_loop toElement
           (map (\<lambda>(name, attribute).
                (name, \<lparr>componentDatatype = componentDatatype attribute,
                        componentsPerAttribute = componentsPerAttribute attribute,
                        normalizeFlag = normalizeFlag attribute,
                        attrValues = Some (createTypedArray (componentDatatype attribute)
                          (length (the (attrValues attribute)) +
                           (\<Sum>inst\<leftarrow>others. length (instanceValues name inst))))\<rparr>)) sel)
           (first # others) =
         Inr (map (\<lambda>(name, attribute).
                (name, \<lparr>componentDatatype = componentDatatype attribute,
                        componentsPerAttribute = componentsPerAttribute attribute,
                        normalizeFlag = normalizeFlag attribute,
                        attrValues = Some (map (toElement (componentDatatype attribute))
                          (concat (map (instanceValues name) (first # others))))\<rparr>))
              sel)"
    using Cons by simp
  show ?case
    unfolding e
    by (simp add: v cv IH bindE_def del: combineValues_loop.simps)
qed

lemma numberOfIndices_loop_eq:
  assumes "\<forall>inst\<in>set insts. indexList (geometry inst) \<noteq> None"
  shows "numberOfIndices_loop insts n = Inr (n + (\<Sum>inst\<leftarrow>insts. length (instanceIndices inst)))"
  using assms
  by (induction insts arbitrary: n) (auto simp: instanceIndices_def)

lemma advanceOffset_eq:
  assumes "mergeable inst"
  shows "advanceOffset (attributes (geometry inst)) (Some (real_of_int offset)) =
         Inr (Some (real_of_int (offset + vertexCount (geometry inst))))"
proof -
  from assms obtain n where n: "computeNumberOfVertices (geometry inst) = Inr n"
    and hv: "list_all (\<lambda>(name, attribute). attrValues attribute \<noteq> None) (attributes (geometry inst))"
    by (auto simp: mergeable_def)
  have vc: "vertexCount (geometry inst) = n" by (simp add: vertexCount_def n)
  show ?thesis
  proof (cases "attributes (geometry inst)")
    case Nil
    with n have "n = 0" by (simp add: computeNumberOfVertices_def)
    with Nil vc show ?thesis by (simp add: advanceOffset_def)
  next
    case (Cons e rest)
    obtain name a where e: "e = (name, a)" by (cases e)
    from hv Cons e obtain vals where v: "attrValues a = Some vals" by auto
    from computeNumberOfVertices_attribute[OF n _ v, of name] Cons e
    have c: "0 < componentsPerAttribute a" "int (length vals) = componentsPerAttribute a * n"
      by auto
    have "real (length vals) = real_of_int (componentsPerAttribute a) * real_of_int n"
      using c(2) by (metis of_int_mult of_int_of_nat_eq)
    then have "real (length vals) / real_of_int (componentsPerAttribute a) = real_of_int n"
      using c(1) by simp
    then show ?thesis
      using c(1) by (simp add: advanceOffset_def Cons e v js_divide_def js_plus_def vc)
  qed
qed

lemma toUint_offset:
  "toUint bits (js_plus (Some (real_of_int offset)) (map_option real_of_int (Some x))) =
     (offset + x) mod 2 ^ bits"
proof -
  have "real_of_int offset + real_of_int x = real_of_int (offset + x)" by simp
  then show ?thesis
    by (simp only: toUint_def js_plus_def option.simps option.map floor_of_int ceiling_of_int if_cancel)
qed

lemma copyIndices_eq:
  assumes "n + length src \<le> length dest" "list_all (\<lambda>x. x \<noteq> None) src"
  shows "copyIndices bits (Some (real_of_int offset)) src (dest, n) =
         (take n dest @ map (map_option (\<lambda>x. (offset + x) mod 2 ^ bits)) src @
            drop (n + length src) dest, n + length src)"
proof -
  have "map (\<lambda>x. Some (toUint bits (js_plus (Some (real_of_int offset)) (map_option real_of_int x)))) src
        = map (map_option (\<lambda>x. (offset + x) mod 2 ^ bits)) src"
  proof (rule map_cong[OF refl])
    fix x assume "x \<in> set src"
    with assms(2) obtain v where "x = Some v" by (auto simp: list_all_iff)
    then show "Some (toUint bits (js_plus (Some (real_of_int offset)) (map_option real_of_int x)))
               = map_option (\<lambda>x. (offset + x) mod 2 ^ bits) x"
      using toUint_offset[of bits offset v] by simp
  qed
  then show ?thesis
    using typed_copy[OF assms(1), of "\<lambda>x. Some (toUint bits
             (js_plus (Some (real_of_int offset)) (map_option real_of_int x)))"]
    by (simp add: copyIndices_def)
qed

lemma mergeable_indices:
  assumes "mergeable inst"
  shows "indexList (geometry inst) = Some (instanceIndices inst) \<and>
         list_all (\<lambda>x. x \<noteq> None) (instanceIndices inst)"
  using assms by (auto simp: mergeable_def instanceIndices_def split: option.splits)

lemma combineIndices_loop_eq:
  assumes "\<forall>inst\<in>set insts. mergeable inst"
    and "n + (\<Sum>inst\<leftarrow>insts. length (instanceIndices inst)) \<le> length dest"
  shows "combineIndices_loop bits insts (Some (real_of_int offset)) (dest, n) =
         Inr (take n dest @ mergedIndices bits offset insts @
              drop (n + (\<Sum>inst\<leftarrow>insts. length (instanceIndices inst))) dest)"
  using assms
proof (induction insts arbitrary: offset dest n)
  case Nil
  then show ?case by simp
next
  case (Cons inst insts)
  let ?src = "instanceIndices inst"
  let ?rest = "\<Sum>inst\<leftarrow>insts. length (instanceIndices inst)"
  let ?new = "map (map_option (\<lambda>x. (offset + x) mod 2 ^ bits)) ?src"
  let ?dest' = "take n dest @ ?new @ drop (n + length ?src) dest"
  from Cons.prems(1) have m: "mergeable inst" by simp
  note il = mergeable_indices[OF m]
  have fit: "n + length ?src \<le> length dest" using Cons.prems(2) by simp
  have len': "length ?dest' = length dest" using fit by simp
  have "combineIndices_loop bits (inst # insts) (Some (real_of_int offset)) (dest, n) =
        combineIndices_loop bits insts (Some (real_of_int (offset + vertexCount (geometry inst))))
          (?dest', n + length ?src)"
    using il by (simp add: advanceOffset_eq[OF m] bindE_def copyIndices_eq[OF fit])
  also have "\<dots> = Inr (take (n + length ?src) ?dest' @
                 mergedIndices bits (offset + vertexCount (geometry inst)) insts @
                 drop (n + length ?src + ?rest) ?dest')"
    apply (rule Cons.IH)
    using Cons.prems len' by simp_all
  also have "take (n + length ?src) ?dest' = take n dest @ ?new"
    using fit by simp
  also have "drop (n + length ?src + ?rest) ?dest' = drop (n + (length ?src + ?rest)) dest"
    using fit by (simp add: ac_simps)
  finally show ?case by simp
qed

lemma combine_merged:
  assumes m: "\<forall>inst\<in>set (first # second # others). mergeable inst"
    and mm: "\<forall>inst\<in>set (second # others). modelMatrix inst = modelMatrix first"
  shows "combine toElement sphereUnion (Some (first # second # others)) =
         Inr \<lparr>attributes = storedAttributes toElement (mergedAttributes (first # second # others)),
              indexList = Some (mergedIndices (indexBits (first # second # others)) 0
                                  (first # second # others)),
              primitiveType = primitiveType (geometry first),
              boundingSphere =
                combineBoundingSpheres sphereUnion (first # second # others) None\<rparr>"
proof -
  let ?insts = "first # second # others"
  let ?num = "\<Sum>inst\<leftarrow>?insts. length (instanceIndices inst)"
  have hv: "\<forall>inst\<in>set ?insts.
      list_all (\<lambda>(name, attribute). attrValues attribute \<noteq> None) (attributes (geometry inst))"
    using m by (simp add: mergeable_def)
  have d: "distinct (map fst (attributes (geometry first)))" using m by (simp add: mergeable_def)
  have il: "\<forall>inst\<in>set ?insts. indexList (geometry inst) \<noteq> None"
    using m mergeable_indices by fastforce
  let ?found = "map (\<lambda>(name, attribute).
                (name, \<lparr>componentDatatype = componentDatatype attribute,
                        componentsPerAttribute = componentsPerAttribute attribute,
                        normalizeFlag = normalizeFlag attribute,
                        attrValues = Some (createTypedArray (componentDatatype attribute)
                          (length (the (attrValues attribute)) +
                           (\<Sum>inst\<leftarrow>second # others. length (instanceValues name inst))))\<rparr>))
              (filter (survives (second # others)) (attributes (geometry first)))"
  have f: "findAttributesInAllGeometries ?insts = Inr ?found"
    unfolding findAttributesInAllGeometries_def list.case
    by (rule findAttributes_loop_eq) (use hv in simp_all)
  have c: "combineAttributes_loop toElement ?found ?insts =
           Inr (storedAttributes toElement (mergedAttributes ?insts))"
  proof -
    have "storedAttributes toElement (mergedAttributes ?insts) =
          map (\<lambda>(name, attribute).
                (name, \<lparr>componentDatatype = componentDatatype attribute,
                        componentsPerAttribute = componentsPerAttribute attribute,
                        normalizeFlag = normalizeFlag attribute,
                        attrValues = Some (map (toElement (componentDatatype attribute))
                          (concat (map (instanceValues name) ?insts)))\<rparr>))
              (filter (survives (second # others)) (attributes (geometry first)))"
      by (simp add: storedAttributes_def mergedAttributes_def case_prod_unfold comp_def)
    moreover have "combineAttributes_loop toElement ?found ?insts = Inr \<dots>"
      by (rule combineAttributes_loop_eq[OF d _ _ hv]) auto
    ultimately show ?thesis by simp
  qed
  have n: "numberOfIndices_loop ?insts 0 = Inr ?num"
    using numberOfIndices_loop_eq[OF il, of 0] by simp
  have i: "\<And>bits. combineIndices_loop bits ?insts (Some 0) (replicate ?num (Some 0), 0) =
        Inr (mergedIndices bits 0 ?insts)"
    using combineIndices_loop_eq[OF m, of 0 "replicate ?num (Some 0)" _ 0] by simp
  have guard: "\<not> (\<exists>inst\<in>set (second # others).
      \<not> Matrix4_equals (modelMatrix inst) (modelMatrix first))"
    using mm by (simp add: Matrix4_equals_def)
  have "combine toElement sphereUnion (Some ?insts) =
        bindE (findAttributesInAllGeometries ?insts) (\<lambda>attrs.
        bindE (combineAttributes_loop toElement attrs ?insts) (\<lambda>attrs.
        bindE (numberOfIndices_loop ?insts 0) (\<lambda>num.
          (let bits = (if num < 60 * 1024 then 16 else 32) in
           bindE (combineIndices_loop bits ?insts (Some 0) (replicate num (Some 0), 0))
             (\<lambda>combinedIndexList.
                Inr \<lparr>attributes = attrs, indexList = Some combinedIndexList,
                     primitiveType = primitiveType (geometry first),
                     boundingSphere = combineBoundingSpheres sphereUnion ?insts None\<rparr>)))))"
    using guard by (simp add: combine_def)
  also have "\<dots> = Inr \<lparr>attributes = storedAttributes toElement (mergedAttributes ?insts),
              indexList = Some (mergedIndices (indexBits ?insts) 0 ?insts),
              primitiveType = primitiveType (geometry first),
              boundingSphere = combineBoundingSpheres sphereUnion ?insts None\<rparr>"
    by (simp only: f c n i bindE_def sum.case Let_def indexBits_def)
  finally show ?thesis .
qed

lemma mergedIndices_offsetIndices:
  "mergedIndices bits offset insts =
     map (map_option (\<lambda>i. i mod 2 ^ bits)) (offsetIndices offset insts)"
  by (induction insts arbitrary: offset) (simp_all add: option.map_comp comp_def)

lemma mergedIndices_fit:
  assumes "list_all (\<lambda>x. case x of None \<Rightarrow> False | Some i \<Rightarrow> 0 \<le> i \<and> i < 2 ^ bits)
             (offsetIndices offset insts)"
  shows "mergedIndices bits offset insts = offsetIndices offset insts"
proof -
  have "map (map_option (\<lambda>i. i mod 2 ^ bits)) (offsetIndices offset insts) =
        map (\<lambda>x. x) (offsetIndices offset insts)"
  proof (rule map_cong[OF refl])
    fix x assume "x \<in> set (offsetIndices offset insts)"
    with assms obtain i where "x = Some i" "0 \<le> i" "i < 2 ^ bits"
      by (auto simp: list_all_iff split: option.splits)
    then show "map_option (\<lambda>i. i mod 2 ^ bits) x = x" by simp
  qed
  then show ?thesis by (simp add: mergedIndices_offsetIndices)
qed

lemma int_sum_list_length:
  "int (\<Sum>x\<leftarrow>xs. length (f x)) = (\<Sum>x\<leftarrow>xs. int (length (f x)))"
  by (induction xs) simp_all

lemma instanceValues_length:
  assumes m: "mergeable inst" and l: "map_of (attributes (geometry inst)) name = Some a"
  shows "int (length (instanceValues name inst)) =
         componentsPerAttribute a * vertexCount (geometry inst)"
proof -
  from m obtain n where n: "computeNumberOfVertices (geometry inst) = Inr n"
    and hv: "list_all (\<lambda>(name, attribute). attrValues attribute \<noteq> None) (attributes (geometry inst))"
    by (auto simp: mergeable_def)
  from map_of_has_values[OF hv l] obtain vals where v: "attrValues a = Some vals" by blast
  from map_of_SomeD[OF l] have "(name, a) \<in> set (attributes (geometry inst))" .
  from computeNumberOfVertices_attribute[OF n this v]
  show ?thesis by (simp add: instanceValues_def l v vertexCount_def n)
qed

lemma mergedAttributes_vertexCount:
  assumes m: "\<forall>inst\<in>set (first # others). mergeable inst"
  shows "list_all (\<lambda>(name, attribute). \<exists>vals. attrValues attribute = Some vals \<and>
            int (length vals) = componentsPerAttribute attribute *
              (\<Sum>inst\<leftarrow>first # others. vertexCount (geometry inst)))
          (mergedAttributes (first # others))"
proof -
  have "\<And>name a. (name, a) \<in> set (attributes (geometry first)) \<Longrightarrow> survives others (name, a) \<Longrightarrow>
      int (length (concat (map (instanceValues name) (first # others)))) =
      componentsPerAttribute a * (\<Sum>inst\<leftarrow>first # others. vertexCount (geometry inst))"
  proof -
    fix name a
    assume mem: "(name, a) \<in> set (attributes (geometry first))" and s: "survives others (name, a)"
    have each: "\<forall>inst\<in>set (first # others). int (length (instanceValues name inst)) =
        componentsPerAttribute a * vertexCount (geometry inst)"
    proof
      fix inst assume i: "inst \<in> set (first # others)"
      show "int (length (instanceValues name inst)) =
            componentsPerAttribute a * vertexCount (geometry inst)"
      proof (cases "inst \<in> set others")
        case True
        with s obtain b where b: "map_of (attributes (geometry inst)) name = Some b"
          "componentsPerAttribute a = componentsPerAttribute b"
          by (auto simp: survives_def list_all_iff split: option.splits)
        moreover from m i have "mergeable inst" by blast
        ultimately show ?thesis using instanceValues_length[of inst name b] by simp
      next
        case False
        with i have eq: "inst = first" by simp
        from m have "distinct (map fst (attributes (geometry first)))" by (simp add: mergeable_def)
        with mem have "map_of (attributes (geometry first)) name = Some a"
          by (simp add: map_of_is_SomeI)
        moreover from m have "mergeable first" by simp
        ultimately show ?thesis using instanceValues_length[of first name a] eq by simp
      qed
    qed
    have "int (length (concat (map (instanceValues name) (first # others)))) =
          (\<Sum>inst\<leftarrow>first # others. int (length (instanceValues name inst)))"
      using int_sum_list_length[of "instanceValues name" "first # others"]
      by (simp add: length_concat comp_def)
    also have "\<dots> = (\<Sum>inst\<leftarrow>first # others. componentsPerAttribute a * vertexCount (geometry inst))"
      using each by (intro arg_cong[where f=sum_list] map_cong) auto
    also have "\<dots> = componentsPerAttribute a * (\<Sum>inst\<leftarrow>first # others. vertexCount (geometry inst))"
      by (simp only: sum_list_const_mult)
    finally show "int (length (concat (map (instanceValues name) (first # others)))) =
      componentsPerAttribute a * (\<Sum>inst\<leftarrow>first # others. vertexCount (geometry inst))" .
  qed
  then show ?thesis
    unfolding mergedAttributes_def list.sel list_all_iff by auto
qed

lemma storedAttributes_representable:
  "representable toElement attrs \<Longrightarrow> storedAttributes toElement attrs = attrs"
proof (induction attrs)
  case Nil
  then show ?case by (simp add: storedAttributes_def)
next
  case (Cons e attrs)
  obtain name attribute where e: "e = (name, attribute)" by (cases e)
  from Cons.prems have r: "representable toElement attrs"
    and v: "case attrValues attribute of None \<Rightarrow> True
            | Some vals \<Rightarrow>
                list_all (\<lambda>v. v \<noteq> None \<and> toElement (componentDatatype attribute) v = v) vals"
    by (simp_all add: representable_def e)
  have "attribute\<lparr>attrValues := map_option (map (toElement (componentDatatype attribute)))
                                    (attrValues attribute)\<rparr> = attribute"
  proof (cases "attrValues attribute")
    case None
    then show ?thesis by simp
  next
    case (Some vals)
    with v have "map (toElement (componentDatatype attribute)) vals = vals"
      by (simp add: list_all_iff map_idI)
    with Some show ?thesis by simp
  qed
  with Cons.IH[OF r] show ?case by (simp add: storedAttributes_def e)
qed

lemma storedAttributes_vertexCount:
  assumes "list_all (\<lambda>(name, attribute). \<exists>vals. attrValues attribute = Some vals \<and>
            int (length vals) = componentsPerAttribute attribute * n) attrs"
  shows "list_all (\<lambda>(name, attribute). \<exists>vals. attrValues attribute = Some vals \<and>
            int (length vals) = componentsPerAttribute attribute * n)
          (storedAttributes toElement attrs)"
  using assms by (induction attrs) (auto simp: storedAttributes_def)

lemma float32_zero: "float32 0 = Some 0"
  by (simp add: float32_def)

lemma float32_one: "float32 1 = Some 1"
proof -
  have "(2::real) powr - 23 = inverse (2 powr 23)" by (rule powr_minus)
  also have "(2::real) powr 23 = 2 ^ 23" by (rule powr_numeral) simp
  also have "inverse ((2::real) ^ 23) = 1 / 8388608"
    by (simp only: power_numeral inverse_eq_divide) simp
  finally have ulp: "(2::real) powr - 23 = 1 / 8388608" .
  have "roundHalfEven 8388608 = 8388608" by (simp add: roundHalfEven_def)
  then show ?thesis by (simp add: float32_def Let_def ulp)
qed

lemma floor_log_tenth: "\<lfloor>log 2 \<bar>1 / 10 :: real\<bar>\<rfloor> = - 4"
proof -
  have p4: "(2::real) powr - 4 = 1 / 16"
  proof -
    have "(2::real) powr - 4 = inverse (2 powr 4)" by (rule powr_minus)
    also have "(2::real) powr 4 = 2 ^ 4" by (rule powr_numeral) simp
    finally show ?thesis by (simp add: inverse_eq_divide)
  qed
  have p3: "(2::real) powr - 3 = 1 / 8"
  proof -
    have "(2::real) powr - 3 = inverse (2 powr 3)" by (rule powr_minus)
    also have "(2::real) powr 3 = 2 ^ 3" by (rule powr_numeral) simp
    finally show ?thesis by (simp add: inverse_eq_divide)
  qed
  have lo: "- 4 \<le> log 2 (1 / 10 :: real)"
    by (subst le_log_iff) (simp_all add: p4)
  have hi: "log 2 (1 / 10 :: real) < - 3"
    by (subst log_less_iff) (simp_all add: p3)
  have "\<lfloor>log 2 (1 / 10 :: real)\<rfloor> = - 4"
    by (rule floor_unique) (use lo hi in simp_all)
  then show ?thesis by simp
qed

text \<open>One tenth is not representable: a \<open>Float32Array\<close> holds
  \<open>13421773 / 2^27 = 0.100000001490116\<dots>\<close> for it.\<close>

lemma float32_tenth: "float32 (1 / 10) = Some (13421773 / 134217728)"
proof -
  have "(2::real) powr - 27 = inverse (2 powr 27)" by (rule powr_minus)
  also have "(2::real) powr 27 = 2 ^ 27" by (rule powr_numeral) simp
  also have "inverse ((2::real) ^ 27) = 1 / 134217728"
    by (simp only: power_numeral inverse_eq_divide) simp
  finally have ulp: "(2::real) powr - 27 = 1 / 134217728" .
  have fl: "\<lfloor>67108864 / 5 :: real\<rfloor> = 13421772"
    by (rule floor_unique) simp_all
  have r: "roundHalfEven (67108864 / 5) = 13421773"
    by (simp add: roundHalfEven_def Let_def fl)
  show ?thesis
    using floor_log_tenth by (simp add: float32_def Let_def ulp r)
qed

lemma ceiling_minus_one: "\<lceil>- 1 :: real\<rceil> = - 1"
  using ceiling_of_int[of "- 1", where ?'a = real] by simp

lemma mergeable_quadInstance: "mergeable quadInstance"
  by (simp add: mergeable_def quadInstance_def quadMesh_def positionAttribute_def
      computeNumberOfVertices_def attributeVertexCount_def quadPositions_def trianglePositions_def)

lemma mergeable_triangleInstance: "mergeable (triangleInstance Matrix4_IDENTITY)"
  by (simp add: mergeable_def triangleInstance_def triangleMesh_def positionAttribute_def
      computeNumberOfVertices_def attributeVertexCount_def trianglePositions_def)

lemma mergeable_largeInstance: "mergeable largeInstance"
  by (simp add: mergeable_def largeInstance_def positionAttribute_def
      computeNumberOfVertices_def attributeVertexCount_def)

lemma mergeable_colorInstance: "mergeable (colorInstance c)"
  by (simp add: mergeable_def colorInstance_def computeNumberOfVertices_def
      attributeVertexCount_def)

lemma vertexCount_examples:
  "vertexCount (geometry quadInstance) = 4"
  "vertexCount (geometry (triangleInstance Matrix4_IDENTITY)) = 3"
  "vertexCount (geometry largeInstance) = 65536"
  by (simp_all add: vertexCount_def quadInstance_def quadMesh_def positionAttribute_def
      triangleInstance_def triangleMesh_def largeInstance_def
      computeNumberOfVertices_def attributeVertexCount_def quadPositions_def trianglePositions_def)

lemma instanceIndices_examples:
  "instanceIndices quadInstance = [Some 0, Some 1, Some 2, Some 2, Some 1, Some 3]"
  "instanceIndices (triangleInstance Matrix4_IDENTITY) = [Some 0, Some 1, Some 2]"
  "instanceIndices largeInstance = [Some 0, Some 1, Some 2]"
  by (simp_all add: instanceIndices_def quadInstance_def quadMesh_def
      triangleInstance_def triangleMesh_def largeInstance_def)

text \<open>The values are stored converted: merged into the \<open>Uint8Array\<close> of an UNSIGNED_BYTE
  attribute, the colours \<open>300\<close> and \<open>-1\<close> come out as \<open>44\<close> and \<open>255\<close>.\<close>

lemma combine_converts_values:
  "map_sum id attributes
     (combine typedArrayElement (\<lambda>left right. left)
        (Some [colorInstance 300, colorInstance (- 1)])) =
   Inr [(''color'', \<lparr>componentDatatype = UNSIGNED_BYTE, componentsPerAttribute = 1,
                      normalizeFlag = None, attrValues = Some [Some 44, Some 255]\<rparr>)]"
proof -
  have m: "\<forall>inst\<in>set [colorInstance 300, colorInstance (- 1)]. mergeable inst"
    by (simp add: mergeable_colorInstance)
  have mm: "\<forall>inst\<in>set [colorInstance (- 1)]. modelMatrix inst = modelMatrix (colorInstance 300)"
    by (simp add: colorInstance_def)
  have "storedAttributes typedArrayElement
          (mergedAttributes [colorInstance 300, colorInstance (- 1)]) =
        [(''color'', \<lparr>componentDatatype = UNSIGNED_BYTE, componentsPerAttribute = 1,
                      normalizeFlag = None, attrValues = Some [Some 44, Some 255]\<rparr>)]"
    by (simp add: storedAttributes_def mergedAttributes_def survives_def instanceValues_def
        colorInstance_def toUint_def ceiling_minus_one)
  with combine_merged[OF m mm, of typedArrayElement "\<lambda>left right. left"]
  show ?thesis by simp
qed

text \<open>
  Claim C6, as the code has it. For two or more mergeable instances with one model matrix,
  \<open>combine\<close> succeeds; the attributes of the result are the surviving attributes of the
  first instance, each with the values of the instances concatenated in input order and
  converted, value by value, to the element type of the typed array that holds them, so
  that each holds as many vertices as the instances together; when every value is a number
  representable in the component datatype of its attribute, the values are the
  concatenation itself; and whenever every index, raised by the vertex count of the
  instances before its own, fits the index buffer that \<open>combine\<close> allocates (16 bits wide
  when the index lists together hold fewer than 61440 indices, 32 bits wide otherwise), the
  index list of the result is the concatenation of the index lists so raised.
\<close>

theorem combine_concatenates:
  assumes "\<forall>inst\<in>set (first # second # others). mergeable inst"
    and "\<forall>inst\<in>set (second # others). modelMatrix inst = modelMatrix first"
  shows "\<exists>result. combine toElement sphereUnion (Some (first # second # others)) = Inr result \<and>
           attributes result =
             storedAttributes toElement (mergedAttributes (first # second # others)) \<and>
           (representable toElement (mergedAttributes (first # second # others)) \<longrightarrow>
            attributes result = mergedAttributes (first # second # others)) \<and>
           list_all (\<lambda>(name, attribute). \<exists>vals. attrValues attribute = Some vals \<and>
              int (length vals) = componentsPerAttribute attribute *
                (\<Sum>inst\<leftarrow>first # second # others. vertexCount (geometry inst)))
             (attributes result) \<and>
           (list_all (\<lambda>x. case x of None \<Rightarrow> False
                            | Some i \<Rightarrow> 0 \<le> i \<and> i < 2 ^ indexBits (first # second # others))
              (offsetIndices 0 (first # second # others)) \<longrightarrow>
            indexList result = Some (offsetIndices 0 (first # second # others)))"
  using combine_merged[OF assms, of toElement sphereUnion]
    storedAttributes_vertexCount[OF mergedAttributes_vertexCount[OF assms(1)], of toElement]
    storedAttributes_representable[of toElement "mergedAttributes (first # second # others)"]
    mergedIndices_fit[of "indexBits (first # second # others)" 0 "first # second # others"]
  by simp

theorem combine_concatenates_witness:
  "mergeable (triangleInstance Matrix4_IDENTITY) \<and> mergeable quadInstance \<and>
   modelMatrix quadInstance = modelMatrix (triangleInstance Matrix4_IDENTITY) \<and>
   representable typedArrayElement
     (mergedAttributes [triangleInstance Matrix4_IDENTITY, quadInstance]) \<and>
   list_all (\<lambda>x. case x of None \<Rightarrow> False | Some i \<Rightarrow> 0 \<le> i \<and> i < 2 ^ 16)
     (offsetIndices 0 [triangleInstance Matrix4_IDENTITY, quadInstance]) \<and>
   (\<exists>result. combine typedArrayElement (\<lambda>left right. left)
                (Some [triangleInstance Matrix4_IDENTITY, quadInstance]) = Inr result \<and>
      attributes result = [(''position'', positionAttribute (trianglePositions @ quadPositions))] \<and>
      indexList result = Some [Some 0, Some 1, Some 2, Some 3, Some 4, Some 5, Some 5, Some 4, Some 6])"
proof -
  have m: "\<forall>inst\<in>set [triangleInstance Matrix4_IDENTITY, quadInstance]. mergeable inst"
    by (simp add: mergeable_quadInstance mergeable_triangleInstance)
  have mm: "\<forall>inst\<in>set [quadInstance]. modelMatrix inst = modelMatrix (triangleInstance Matrix4_IDENTITY)"
    by (simp add: quadInstance_def triangleInstance_def)
  have a: "mergedAttributes [triangleInstance Matrix4_IDENTITY, quadInstance] =
           [(''position'', positionAttribute (trianglePositions @ quadPositions))]"
    by (simp add: mergedAttributes_def survives_def instanceValues_def quadInstance_def
        triangleInstance_def triangleMesh_def quadMesh_def positionAttribute_def)
  have rep: "representable typedArrayElement
     (mergedAttributes [triangleInstance Matrix4_IDENTITY, quadInstance])"
    unfolding a
    by (simp add: representable_def positionAttribute_def quadPositions_def
        trianglePositions_def float32_zero float32_one)
  have b: "indexBits [triangleInstance Matrix4_IDENTITY, quadInstance] = 16"
    by (simp add: indexBits_def instanceIndices_examples)
  have i: "offsetIndices 0 [triangleInstance Matrix4_IDENTITY, quadInstance] =
           [Some 0, Some 1, Some 2, Some 3, Some 4, Some 5, Some 5, Some 4, Some 6]"
    by (simp add: instanceIndices_examples vertexCount_examples)
  have fit: "list_all (\<lambda>x. case x of None \<Rightarrow> False | Some i \<Rightarrow> 0 \<le> i \<and> i < 2 ^ 16)
     (offsetIndices 0 [triangleInstance Matrix4_IDENTITY, quadInstance])"
    unfolding i by simp
  from combine_concatenates[OF m mm, of typedArrayElement "\<lambda>left right. left"] obtain result where
    r: "combine typedArrayElement (\<lambda>left right. left)
          (Some [triangleInstance Matrix4_IDENTITY, quadInstance]) = Inr result"
      "representable typedArrayElement
         (mergedAttributes [triangleInstance Matrix4_IDENTITY, quadInstance]) \<longrightarrow>
       attributes result = mergedAttributes [triangleInstance Matrix4_IDENTITY, quadInstance]"
      "list_all (\<lambda>x. case x of None \<Rightarrow> False
                 | Some i \<Rightarrow> 0 \<le> i \<and>
                     i < 2 ^ indexBits [triangleInstance Matrix4_IDENTITY, quadInstance])
         (offsetIndices 0 [triangleInstance Matrix4_IDENTITY, quadInstance]) \<longrightarrow>
       indexList result =
         Some (offsetIndices 0 [triangleInstance Matrix4_IDENTITY, quadInstance])"
    by blast
  from r(2) rep have ra: "attributes result =
      [(''position'', positionAttribute (trianglePositions @ quadPositions))]"
    unfolding a by simp
  from r(3) fit have "indexList result =
      Some [Some 0, Some 1, Some 2, Some 3, Some 4, Some 5, Some 5, Some 4, Some 6]"
    unfolding b i by simp
  with r(1) ra rep fit m mm show ?thesis by auto
qed

text \<open>
  Claim C6 as stated has no condition on the size of the indices. Merging the mesh of 65536
  vertices with the triangle gives six indices, so the buffer is a \<open>Uint16Array\<close>; the
  triangle's indices raised by 65536 are stored as \<open>0, 1, 2\<close>, not as
  \<open>65536, 65537, 65538\<close>.
\<close>

theorem combine_offset_counterexample:
  "mergeable largeInstance \<and> mergeable (triangleInstance Matrix4_IDENTITY) \<and>
   modelMatrix (triangleInstance Matrix4_IDENTITY) = modelMatrix largeInstance \<and>
   map_sum id indexList
     (combine typedArrayElement (\<lambda>left right. left)
        (Some [largeInstance, triangleInstance Matrix4_IDENTITY])) =
     Inr (Some [Some 0, Some 1, Some 2, Some 0, Some 1, Some 2]) \<and>
   offsetIndices 0 [largeInstance, triangleInstance Matrix4_IDENTITY] =
     [Some 0, Some 1, Some 2, Some 65536, Some 65537, Some 65538]"
proof -
  have m: "\<forall>inst\<in>set [largeInstance, triangleInstance Matrix4_IDENTITY]. mergeable inst"
    by (simp add: mergeable_largeInstance mergeable_triangleInstance)
  have mm: "\<forall>inst\<in>set [triangleInstance Matrix4_IDENTITY]. modelMatrix inst = modelMatrix largeInstance"
    by (simp add: largeInstance_def triangleInstance_def)
  have b: "indexBits [largeInstance, triangleInstance Matrix4_IDENTITY] = 16"
    by (simp add: indexBits_def instanceIndices_examples)
  have i: "mergedIndices 16 0 [largeInstance, triangleInstance Matrix4_IDENTITY] =
           [Some 0, Some 1, Some 2, Some 0, Some 1, Some 2]"
    by (simp add: instanceIndices_examples vertexCount_examples)
  have o: "offsetIndices 0 [largeInstance, triangleInstance Matrix4_IDENTITY] =
     [Some 0, Some 1, Some 2, Some 65536, Some 65537, Some 65538]"
    by (simp add: instanceIndices_examples vertexCount_examples)
  from combine_merged[OF m mm, of typedArrayElement "\<lambda>left right. left"] b i o m mm
  show ?thesis by simp
qed

section \<open>Properties of fitToUnsignedShortIndices\<close>

lemma pushVertex_length:
  "length (pushVertex nc src index dest) = length dest + nat nc"
proof -
  have "\<And>m. length (fold (\<lambda>k vals. vals @ [js_get_at src
                   (map_option (\<lambda>i. i * nc + int k) index)]) [0 ..< m] dest) = length dest + m"
  proof -
    fix m show "length (fold (\<lambda>k vals. vals @ [js_get_at src
                   (map_option (\<lambda>i. i * nc + int k) index)]) [0 ..< m] dest) = length dest + m"
      by (induction m) simp_all
  qed
  then show ?thesis by (simp add: pushVertex_def)
qed

lemma copyVertex_fold: "copyVertex dest source index = fold (copyStep index) source dest"
  by (simp add: copyVertex_def copyStep_def)

lemma copyStep_keys:
  "map (\<lambda>(name, d). (name, componentsPerAttribute d)) (copyStep index e dest) =
   map (\<lambda>(name, d). (name, componentsPerAttribute d)) dest"
  by (cases e) (auto simp: copyStep_def split: option.splits)

lemma fold_copyStep_keys:
  "map (\<lambda>(name, d). (name, componentsPerAttribute d)) (fold (copyStep index) todo dest) =
   map (\<lambda>(name, d). (name, componentsPerAttribute d)) dest"
  by (induction todo arbitrary: dest) (simp_all add: copyStep_keys)

lemma keys_mem:
  assumes "map (\<lambda>(name, d). (name, componentsPerAttribute d)) xs =
           map (\<lambda>(name, d). (name, componentsPerAttribute d)) ys"
    and "(name, d) \<in> set xs"
  shows "\<exists>d'. (name, d') \<in> set ys \<and> componentsPerAttribute d' = componentsPerAttribute d"
proof -
  from assms(2) have "(name, componentsPerAttribute d) \<in>
      set (map (\<lambda>(name, d). (name, componentsPerAttribute d)) xs)" by force
  with assms(1) have "(name, componentsPerAttribute d) \<in>
      set (map (\<lambda>(name, d). (name, componentsPerAttribute d)) ys)" by simp
  then show ?thesis by auto
qed

lemma fold_copyStep_blocks:
  assumes "blocks_ok S c dest" "distinct (map fst todo)" "fst ` set todo \<inter> S = {}"
    and "\<forall>(name, a)\<in>set todo. \<forall>d. (name, d) \<in> set dest \<longrightarrow>
           attrValues a \<noteq> None \<and> componentsPerAttribute a = componentsPerAttribute d \<and>
           0 \<le> componentsPerAttribute a"
  shows "blocks_ok (S \<union> fst ` set todo) c (fold (copyStep index) todo dest)"
  using assms
proof (induction todo arbitrary: S dest)
  case Nil
  then show ?case by simp
next
  case (Cons e todo)
  obtain attribute attr where e: "e = (attribute, attr)" by (cases e)
  have notS: "attribute \<notin> S" using Cons.prems(3) e by auto
  have step: "blocks_ok (insert attribute S) c (copyStep index e dest)"
    unfolding blocks_ok_def
  proof (intro ballI, clarify)
    fix name d assume mem: "(name, d) \<in> set (copyStep index e dest)"
    show "\<exists>vals. attrValues d = Some vals \<and>
        int (length vals) = componentsPerAttribute d * (if name \<in> insert attribute S then c + 1 else c)"
    proof (cases "attrValues attr")
      case None
      with mem e have m: "(name, d) \<in> set dest" by (simp add: copyStep_def)
      have "name \<noteq> attribute"
      proof
        assume "name = attribute"
        with Cons.prems(4) e m have "attrValues attr \<noteq> None" by auto
        with None show False by simp
      qed
      with Cons.prems(1) m show ?thesis by (auto simp: blocks_ok_def)
    next
      case (Some sv)
      with mem e obtain d0 where d0: "(name, d0) \<in> set dest"
        and d: "d = (if name = attribute
               then d0\<lparr>attrValues := map_option (pushVertex (componentsPerAttribute attr) sv index)
                          (attrValues d0)\<rparr> else d0)"
        by (auto simp: copyStep_def split: if_splits)
      from Cons.prems(1) d0 obtain vals where v: "attrValues d0 = Some vals"
        "int (length vals) = componentsPerAttribute d0 * (if name \<in> S then c + 1 else c)"
        by (auto simp: blocks_ok_def)
      show ?thesis
      proof (cases "name = attribute")
        case True
        with Cons.prems(4) e d0 have c: "componentsPerAttribute attr = componentsPerAttribute d0"
          "0 \<le> componentsPerAttribute attr" by auto
        have "int (length (pushVertex (componentsPerAttribute attr) sv index vals)) =
              componentsPerAttribute d0 * (c + 1)"
          using v(2) notS True c by (simp add: pushVertex_length distrib_left)
        with True d v show ?thesis by simp
      next
        case False
        with d v show ?thesis by simp
      qed
    qed
  qed
  have keys: "\<And>name d. (name, d) \<in> set (copyStep index e dest) \<Longrightarrow>
      \<exists>d'. (name, d') \<in> set dest \<and> componentsPerAttribute d' = componentsPerAttribute d"
    using keys_mem[OF copyStep_keys] by blast
  have "blocks_ok (insert attribute S \<union> fst ` set todo) c
          (fold (copyStep index) todo (copyStep index e dest))"
  proof (rule Cons.IH[OF step])
    show "distinct (map fst todo)" using Cons.prems(2) by simp
    show "fst ` set todo \<inter> insert attribute S = {}"
      using Cons.prems(2,3) e by auto
    show "\<forall>(name, a)\<in>set todo. \<forall>d. (name, d) \<in> set (copyStep index e dest) \<longrightarrow>
           attrValues a \<noteq> None \<and> componentsPerAttribute a = componentsPerAttribute d \<and>
           0 \<le> componentsPerAttribute a"
    proof (intro ballI, clarify)
      fix name a d assume a: "(name, a) \<in> set todo" and d: "(name, d) \<in> set (copyStep index e dest)"
      from keys[OF d] obtain d' where "(name, d') \<in> set dest"
        "componentsPerAttribute d' = componentsPerAttribute d" by blast
      with Cons.prems(4) a show "attrValues a \<noteq> None \<and>
          componentsPerAttribute a = componentsPerAttribute d \<and> 0 \<le> componentsPerAttribute a"
        by auto
    qed
  qed
  then show ?case using e by simp
qed

lemma distinct_fst_unique:
  assumes "distinct (map fst xs)" "(k, a) \<in> set xs" "(k, b) \<in> set xs"
  shows "a = b"
  using assms by (metis map_of_is_SomeI option.inject)

lemma copyVertex_attrs_ok:
  assumes ok: "attrs_ok source dest c" and d: "distinct (map fst source)"
    and pos: "\<forall>(name, a)\<in>set source. attrValues a \<noteq> None \<longrightarrow> 0 < componentsPerAttribute a"
  shows "attrs_ok source (copyVertex dest source index) (c + 1)"
proof -
  let ?keys = "\<lambda>xs. map (\<lambda>(name, d). (name, componentsPerAttribute d)) xs"
  let ?src = "filter (\<lambda>(name, a). attrValues a \<noteq> None) source"
  from ok have k: "?keys dest = ?keys ?src"
    and b: "blocks_ok {} c dest" by (auto simp: attrs_ok_def blocks_ok_def)
  have cons: "\<forall>(name, a)\<in>set source. \<forall>d. (name, d) \<in> set dest \<longrightarrow>
           attrValues a \<noteq> None \<and> componentsPerAttribute a = componentsPerAttribute d \<and>
           0 \<le> componentsPerAttribute a"
  proof (intro ballI, clarify)
    fix name a d' assume a: "(name, a) \<in> set source" and d': "(name, d') \<in> set dest"
    from keys_mem[OF k d'] obtain a' where a': "(name, a') \<in> set ?src"
      "componentsPerAttribute a' = componentsPerAttribute d'" by blast
    then have "(name, a') \<in> set source" "attrValues a' \<noteq> None" by auto
    with distinct_fst_unique[OF d a] have "a = a'" "attrValues a \<noteq> None" by auto
    with a' pos a show "attrValues a \<noteq> None \<and> componentsPerAttribute a = componentsPerAttribute d' \<and>
           0 \<le> componentsPerAttribute a" by force
  qed
  have res: "blocks_ok ({} \<union> fst ` set source) c (copyVertex dest source index)"
    unfolding copyVertex_fold
    by (rule fold_copyStep_blocks[OF b d _ cons]) simp
  have k': "?keys (copyVertex dest source index) = ?keys ?src"
    unfolding copyVertex_fold fold_copyStep_keys by (rule k)
  have "\<forall>(name, d')\<in>set (copyVertex dest source index). \<exists>vals. attrValues d' = Some vals \<and>
        int (length vals) = componentsPerAttribute d' * (c + 1)"
  proof (intro ballI, clarify)
    fix name d' assume m: "(name, d') \<in> set (copyVertex dest source index)"
    from keys_mem[OF k' m] have nm: "name \<in> fst ` set source" by force
    from res m have "\<exists>vals. attrValues d' = Some vals \<and>
        int (length vals) = componentsPerAttribute d' *
          (if name \<in> {} \<union> fst ` set source then c + 1 else c)"
      unfolding blocks_ok_def by blast
    with nm show "\<exists>vals. attrValues d' = Some vals \<and>
        int (length vals) = componentsPerAttribute d' * (c + 1)"
      by simp
  qed
  with k' show ?thesis by (simp add: attrs_ok_def)
qed

lemma attrs_ok_initial: "attrs_ok source (copyAttributesDescriptions source) 0"
  by (auto simp: attrs_ok_def copyAttributesDescriptions_def case_prod_unfold comp_def)

lemma remapCorner_conj:
  assumes r: "remap_ok n (oldToNewIndex st) (currentIndex st)"
    and a: "attrs_ok source (newAttributes st) (currentIndex st)"
    and d: "distinct (map fst source)"
    and pos: "\<forall>(name, a)\<in>set source. attrValues a \<noteq> None \<longrightarrow> 0 < componentsPerAttribute a"
    and x: "0 \<le> i" "i < n"
    and res: "remapCorner source (Some i) st = (k, st')"
  shows "oldToNewIndex st' (Some i) = Some k \<and>
         remap_ok n (oldToNewIndex st') (currentIndex st') \<and>
         currentIndex st' \<le> currentIndex st + 1 \<and>
         attrs_ok source (newAttributes st') (currentIndex st') \<and>
         oldToNewIndex st \<subseteq>\<^sub>m oldToNewIndex st' \<and>
         newIndices st' = newIndices st \<and> geometries st' = geometries st"
proof (cases "oldToNewIndex st (Some i)")
  case (Some k')
  with res have "k = k'" "st' = st" by (simp_all add: remapCorner_def)
  with Some r a show ?thesis by simp
next
  case None
  let ?c = "currentIndex st"
  from None res have k: "k = ?c"
    and st': "st' = st\<lparr>currentIndex := ?c + 1,
                oldToNewIndex := (oldToNewIndex st)(Some i \<mapsto> ?c),
                newAttributes := copyVertex (newAttributes st) source (Some i)\<rparr>"
    by (auto simp: remapCorner_def)
  have r': "remap_ok n ((oldToNewIndex st)(Some i \<mapsto> ?c)) (?c + 1)"
    unfolding remap_ok_def
  proof (intro conjI allI impI)
    show "0 \<le> ?c + 1" using r by (simp add: remap_ok_def)
  next
    fix y k' assume "((oldToNewIndex st)(Some i \<mapsto> ?c)) y = Some k'"
    then consider "y = Some i" "k' = ?c" | "oldToNewIndex st y = Some k'"
      by (cases "y = Some i") simp_all
    then show "\<exists>i. y = Some i \<and> 0 \<le> i \<and> i < n"
      using x r unfolding remap_ok_def by cases blast+
  next
    fix y k' assume "((oldToNewIndex st)(Some i \<mapsto> ?c)) y = Some k'"
    then consider "y = Some i" "k' = ?c" | "oldToNewIndex st y = Some k'"
      by (cases "y = Some i") simp_all
    then show "0 \<le> k'"
      using r unfolding remap_ok_def by cases blast+
  next
    fix y k' assume "((oldToNewIndex st)(Some i \<mapsto> ?c)) y = Some k'"
    then consider "y = Some i" "k' = ?c" | "oldToNewIndex st y = Some k'"
      by (cases "y = Some i") simp_all
    then show "k' < ?c + 1"
      using r unfolding remap_ok_def by cases force+
  next
    fix y z k'
    assume y: "((oldToNewIndex st)(Some i \<mapsto> ?c)) y = Some k'"
      and z: "((oldToNewIndex st)(Some i \<mapsto> ?c)) z = Some k'"
    have old: "\<And>w. oldToNewIndex st w = Some k' \<Longrightarrow> k' < ?c"
      using r unfolding remap_ok_def by blast
    show "y = z"
    proof (cases "y = Some i")
      case True
      with y have "k' = ?c" by simp
      with z old show ?thesis using True by (cases "z = Some i") auto
    next
      case False
      with y have oy: "oldToNewIndex st y = Some k'" by simp
      show ?thesis
      proof (cases "z = Some i")
        case True
        with z have "k' = ?c" by simp
        with old[OF oy] show ?thesis by simp
      next
        case F2: False
        with z have "oldToNewIndex st z = Some k'" by simp
        with oy r show ?thesis unfolding remap_ok_def by blast
      qed
    qed
  qed
  have le: "oldToNewIndex st \<subseteq>\<^sub>m (oldToNewIndex st)(Some i \<mapsto> ?c)"
    using None by (auto simp: map_le_def)
  show ?thesis
    using r' le copyVertex_attrs_ok[OF a d pos] by (simp add: st' k)
qed

lemma remapCorner_props:
  assumes "remap_ok n (oldToNewIndex st) (currentIndex st)"
    and "attrs_ok source (newAttributes st) (currentIndex st)"
    and "distinct (map fst source)"
    and "\<forall>(name, a)\<in>set source. attrValues a \<noteq> None \<longrightarrow> 0 < componentsPerAttribute a"
    and "0 \<le> i" "i < n"
    and "remapCorner source (Some i) st = (k, st')"
  shows "oldToNewIndex st' (Some i) = Some k"
    and "remap_ok n (oldToNewIndex st') (currentIndex st')"
    and "currentIndex st' \<le> currentIndex st + 1"
    and "attrs_ok source (newAttributes st') (currentIndex st')"
    and "oldToNewIndex st \<subseteq>\<^sub>m oldToNewIndex st'"
    and "newIndices st' = newIndices st"
    and "geometries st' = geometries st"
  using remapCorner_conj[OF assms] by simp_all

lemma find_unique:
  assumes "i \<in> set xs" "P i" "\<And>y. y \<in> set xs \<Longrightarrow> P y \<Longrightarrow> y = i"
  shows "find P xs = Some i"
  using assms(1,3)
proof (induction xs)
  case Nil
  then show ?case by simp
next
  case (Cons a xs)
  show ?case
  proof (cases "P a")
    case True
    have "a = i" by (rule Cons.prems(2)[OF _ True]) simp
    with True show ?thesis by simp
  next
    case False
    with assms(2) have "a \<noteq> i" by blast
    with Cons.prems(1) have mem: "i \<in> set xs" by simp
    have "find P xs = Some i"
      by (rule Cons.IH[OF mem]) (rule Cons.prems(2), simp_all)
    with False show ?thesis by simp
  qed
qed

lemma newToOld_remap:
  assumes "remap_ok n remap c" "remap x = Some k"
  shows "newToOld remap n (Some k) = x"
proof -
  from assms obtain i where i: "x = Some i" "0 \<le> i" "i < n"
    unfolding remap_ok_def by blast
  have mem: "i \<in> set (map int [0 ..< nat n])"
  proof -
    have "nat i \<in> set [0 ..< nat n]" using i by simp
    then have "int (nat i) \<in> int ` set [0 ..< nat n]" by (rule imageI)
    then show ?thesis using i by simp
  qed
  have uniq: "\<And>y. remap (Some y) = Some k \<Longrightarrow> y = i"
  proof -
    fix y assume "remap (Some y) = Some k"
    moreover have "remap (Some i) = Some k" using assms(2) i by simp
    ultimately have "Some y = Some i" using assms(1) unfolding remap_ok_def by blast
    then show "y = i" by simp
  qed
  have "find (\<lambda>old. remap (Some old) = Some k) (map int [0 ..< nat n]) = Some i"
  proof (rule find_unique[OF mem])
    show "remap (Some i) = Some k" using assms(2) i by simp
  qed (rule uniq)
  then show ?thesis by (simp add: newToOld_def i)
qed

lemma newToOld_segment:
  assumes "remap_ok n remap c" "\<forall>x\<in>set seg. remap x \<noteq> None"
  shows "map (newToOld remap n) (map remap seg) = seg"
proof -
  have "\<And>x. x \<in> set seg \<Longrightarrow> newToOld remap n (remap x) = x"
  proof -
    fix x assume "x \<in> set seg"
    with assms(2) obtain k where "remap x = Some k" by auto
    with newToOld_remap[OF assms(1) this] show "newToOld remap n (remap x) = x" by simp
  qed
  then show ?thesis by (simp add: map_idI)
qed

lemma computeNumberOfVertices_loop_uniform:
  assumes "\<forall>(name, d)\<in>set dest. \<exists>vals. attrValues d = Some vals \<and>
             attributeVertexCount d vals = Inr c"
    and "acc = None \<or> acc = Some c"
  shows "computeNumberOfVertices_loop dest acc =
         Inr (if dest = [] then (case acc of None \<Rightarrow> 0 | Some n \<Rightarrow> n) else c)"
  using assms
proof (induction dest arbitrary: acc)
  case Nil
  then show ?case by simp
next
  case (Cons e dest)
  obtain name d where e: "e = (name, d)" by (cases e)
  from Cons.prems(1) e obtain vals where v: "attrValues d = Some vals"
    "attributeVertexCount d vals = Inr c" by auto
  have "computeNumberOfVertices_loop (e # dest) acc = computeNumberOfVertices_loop dest (Some c)"
    using v Cons.prems(2) unfolding e by (cases acc) simp_all
  also have "\<dots> = Inr (if dest = [] then c else c)"
    using Cons.IH[of "Some c"] Cons.prems(1) by simp
  finally show ?case by simp
qed

lemma chunk_vertexCount:
  assumes ok: "attrs_ok source dest c"
    and pos: "\<forall>(name, a)\<in>set source. attrValues a \<noteq> None \<longrightarrow> 0 < componentsPerAttribute a"
    and ne: "filter (\<lambda>(name, a). attrValues a \<noteq> None) source \<noteq> []"
  shows "computeNumberOfVertices (createMesh dest t indices) = Inr c"
proof -
  let ?src = "filter (\<lambda>(name, a). attrValues a \<noteq> None) source"
  from ok have k: "map (\<lambda>(name, d). (name, componentsPerAttribute d)) dest =
       map (\<lambda>(name, a). (name, componentsPerAttribute a)) ?src"
    by (simp add: attrs_ok_def)
  have dne: "dest \<noteq> []"
  proof
    assume "dest = []"
    with k have "map (\<lambda>(name, a). (name, componentsPerAttribute a)) ?src = []" by simp
    then have "?src = []" by (simp only: map_is_Nil_conv)
    with ne show False by simp
  qed
  have "\<forall>(name, d)\<in>set dest. \<exists>vals. attrValues d = Some vals \<and>
             attributeVertexCount d vals = Inr c"
  proof (intro ballI, clarify)
    fix name d assume m: "(name, d) \<in> set dest"
    from keys_mem[OF k m] obtain a where a: "(name, a) \<in> set ?src"
      "componentsPerAttribute a = componentsPerAttribute d" by blast
    then have "(name, a) \<in> set source" "attrValues a \<noteq> None" by simp_all
    with pos a(2) have p: "0 < componentsPerAttribute d" by fastforce
    from ok have "\<forall>(name, d)\<in>set dest. \<exists>vals. attrValues d = Some vals \<and>
        int (length vals) = componentsPerAttribute d * c" by (simp add: attrs_ok_def)
    with m obtain vals where v: "attrValues d = Some vals"
      "int (length vals) = componentsPerAttribute d * c" by blast
    have "attributeVertexCount d vals = Inr c"
      using p v(2) by (simp add: attributeVertexCount_def)
    with v show "\<exists>vals. attrValues d = Some vals \<and> attributeVertexCount d vals = Inr c"
      by blast
  qed
  from computeNumberOfVertices_loop_uniform[OF this, of None] dne
  have "computeNumberOfVertices_loop dest None = Inr c" by simp
  moreover have "attributes (createMesh dest t indices) = dest" by (simp add: createMesh_def)
  ultimately show ?thesis by (simp only: computeNumberOfVertices_def)
qed

lemma map_le_lookup: "m \<subseteq>\<^sub>m m' \<Longrightarrow> m x = Some k \<Longrightarrow> m' x = Some k"
  by (metis domI map_le_def)

lemma remap_ok_empty: "remap_ok n Map.empty 0"
  by (simp add: remap_ok_def)

lemma take_three:
  assumes "j + 3 \<le> length xs"
  shows "take (j + 3) xs = take j xs @ [xs ! j, xs ! (j + 1), xs ! (j + 2)]"
proof -
  have "take (j + 3) xs = take (Suc (Suc (Suc j))) xs" by (simp add: numeral_3_eq_3)
  also have "\<dots> = take j xs @ [xs ! j, xs ! Suc j, xs ! Suc (Suc j)]"
    using assms by (simp add: take_Suc_conv_app_nth)
  finally show ?thesis by simp
qed

lemma fold_append_upt:
  "fold (\<lambda>k vals. vals @ [f k]) [0 ..< m] dest = dest @ map f [0 ..< m]"
  by (induction m) simp_all

lemma pushVertex_eq:
  "pushVertex nc src index dest =
     dest @ map (\<lambda>k. js_get_at src (map_option (\<lambda>i. i * nc + int k) index)) [0 ..< nat nc]"
  unfolding pushVertex_def by (rule fold_append_upt)

lemma js_get_append:
  "0 \<le> i \<Longrightarrow> js_get (xs @ ys) i =
     (if i < int (length xs) then js_get xs i else js_get ys (i - int (length xs)))"
  by (auto simp: js_get_def nth_append nat_diff_distrib nat_less_iff)

lemma copyStep_map:
  "copyStep index (attribute, attr) dest =
     map (\<lambda>(name, d). case attrValues attr of
                          None \<Rightarrow> (name, d)
                        | Some sourceValues \<Rightarrow>
                            if name = attribute
                            then (name, d\<lparr>attrValues :=
                                   map_option (pushVertex (componentsPerAttribute attr)
                                                 sourceValues index) (attrValues d)\<rparr>)
                            else (name, d)) dest"
  by (cases "attrValues attr") (simp_all add: copyStep_def case_prod_unfold)

lemma fold_copyStep_pushInto:
  "distinct (map fst source) \<Longrightarrow>
   fold (copyStep index) source dest = map (pushInto source index) dest"
proof (induction source arbitrary: dest)
  case Nil
  then show ?case by (simp add: pushInto_def case_prod_unfold)
next
  case (Cons e source)
  obtain attribute attr where e: "e = (attribute, attr)" by (cases e)
  from Cons.prems e have nm: "map_of source attribute = None" and d: "distinct (map fst source)"
    by (simp_all add: map_of_eq_None_iff)
  have "fold (copyStep index) (e # source) dest =
        map (pushInto source index) (copyStep index (attribute, attr) dest)"
    using Cons.IH[OF d] by (simp add: e)
  also have "\<dots> = map (pushInto (e # source) index) dest"
    unfolding copyStep_map map_map
  proof (rule map_cong[OF refl])
    fix x assume "x \<in> set dest"
    obtain name dd where x: "x = (name, dd)" by (cases x)
    show "(pushInto source index \<circ>
            (\<lambda>(name, d). case attrValues attr of
                          None \<Rightarrow> (name, d)
                        | Some sourceValues \<Rightarrow>
                            if name = attribute
                            then (name, d\<lparr>attrValues :=
                                   map_option (pushVertex (componentsPerAttribute attr)
                                                 sourceValues index) (attrValues d)\<rparr>)
                            else (name, d))) x = pushInto (e # source) index x"
      using nm by (cases "attrValues attr") (simp_all add: x e pushInto_def)
  qed
  finally show ?case .
qed

lemma copyVertex_pushInto:
  "distinct (map fst source) \<Longrightarrow>
   copyVertex dest source index = map (pushInto source index) dest"
  by (simp add: copyVertex_fold fold_copyStep_pushInto)

lemma vertexComponents_pushed_old:
  assumes v: "attrValues d = Some vals"
    and len: "int (length vals) = componentsPerAttribute d * c"
    and k: "0 \<le> k" "k < c"
  shows "vertexComponents (d\<lparr>attrValues := Some (vals @ ys)\<rparr>) (Some k) =
         vertexComponents d (Some k)"
proof -
  let ?nc = "componentsPerAttribute d"
  have "\<And>i. i \<in> set [0 ..< nat ?nc] \<Longrightarrow>
      js_get (vals @ ys) (?nc * k + int i) = js_get vals (?nc * k + int i)"
  proof -
    fix i assume "i \<in> set [0 ..< nat ?nc]"
    then have i: "int i < ?nc" by simp
    then have nc: "0 < ?nc" by linarith
    have "?nc * k + int i < ?nc * k + ?nc" using i by simp
    also have "\<dots> = ?nc * (k + 1)" by (simp add: distrib_left)
    also have "\<dots> \<le> ?nc * c" using k nc by (intro mult_left_mono) simp_all
    finally have lt: "?nc * k + int i < int (length vals)" using len by simp
    have ge: "0 \<le> ?nc * k + int i" using nc k by simp
    show "js_get (vals @ ys) (?nc * k + int i) = js_get vals (?nc * k + int i)"
      using lt by (simp add: js_get_append[OF ge])
  qed
  then show ?thesis by (simp add: vertexComponents_def v js_get_at_def)
qed

lemma vertexComponents_pushed_new:
  assumes v: "attrValues d = Some vals"
    and len: "int (length vals) = componentsPerAttribute d * c"
    and same: "componentsPerAttribute a = componentsPerAttribute d"
    and sv: "attrValues a = Some sv"
  shows "vertexComponents (d\<lparr>attrValues :=
           Some (pushVertex (componentsPerAttribute a) sv (Some i) vals)\<rparr>) (Some c) =
         vertexComponents a (Some i)"
proof -
  let ?nc = "componentsPerAttribute d"
  let ?pushed = "map (\<lambda>k. js_get_at sv (map_option (\<lambda>i. i * ?nc + int k) (Some i))) [0 ..< nat ?nc]"
  have "\<And>j. j \<in> set [0 ..< nat ?nc] \<Longrightarrow>
      js_get (vals @ ?pushed) (?nc * c + int j) = js_get sv (?nc * i + int j)"
  proof -
    fix j assume "j \<in> set [0 ..< nat ?nc]"
    then have j: "j < nat ?nc" by simp
    have ge: "0 \<le> ?nc * c + int j" using len by (metis of_nat_0_le_iff add_nonneg_nonneg)
    have "js_get (vals @ ?pushed) (?nc * c + int j) = js_get ?pushed (int j)"
      using len by (simp add: js_get_append[OF ge])
    also have "\<dots> = ?pushed ! j"
    proof -
      have "j < length ?pushed" using j by simp
      then have "0 \<le> int j \<and> int j < int (length ?pushed)" by linarith
      then show ?thesis by (simp only: js_get_def if_True nat_int simp_thms)
    qed
    also have "\<dots> = js_get sv (i * ?nc + int j)"
      using j by (simp add: js_get_at_def)
    finally show "js_get (vals @ ?pushed) (?nc * c + int j) = js_get sv (?nc * i + int j)"
      by (simp add: mult.commute)
  qed
  then show ?thesis
    by (simp add: vertexComponents_def v sv same pushVertex_eq js_get_at_def)
qed

lemma copyVertex_data_ok:
  assumes dt: "data_ok source dest remap"
    and ok: "attrs_ok source dest c"
    and r: "remap_ok n remap c"
    and d: "distinct (map fst source)"
    and fresh: "remap (Some i) = None"
  shows "data_ok source (copyVertex dest source (Some i)) (remap(Some i \<mapsto> c))"
proof -
  let ?src = "filter (\<lambda>(name, a). attrValues a \<noteq> None) source"
  let ?R = "\<lambda>remap. \<lambda>(name, a) (name', d).
        name' = name \<and> componentDatatype d = componentDatatype a \<and>
        componentsPerAttribute d = componentsPerAttribute a \<and>
        normalizeFlag d = normalizeFlag a \<and>
        (\<forall>x k. remap x = Some k \<longrightarrow> vertexComponents d (Some k) = vertexComponents a x)"
  from dt have l: "list_all2 (?R remap) ?src dest" by (simp add: data_ok_def)
  have "list_all2 (\<lambda>x y. ?R (remap(Some i \<mapsto> c)) x (pushInto source (Some i) y)) ?src dest"
  proof (rule list.rel_mono_strong[OF l])
    fix x y assume x: "x \<in> set ?src" and y: "y \<in> set dest" and R: "?R remap x y"
    obtain name a where xa: "x = (name, a)" by (cases x)
    obtain name' dd where yd: "y = (name', dd)" by (cases y)
    from R xa yd have nm: "name' = name" and desc: "componentDatatype dd = componentDatatype a"
      "componentsPerAttribute dd = componentsPerAttribute a" "normalizeFlag dd = normalizeFlag a"
      and old: "\<And>x k. remap x = Some k \<Longrightarrow> vertexComponents dd (Some k) = vertexComponents a x"
      by auto
    from x xa obtain sv where mem: "(name, a) \<in> set source" and sv: "attrValues a = Some sv"
      by auto
    from d mem have look: "map_of source name = Some a" by (simp add: map_of_is_SomeI)
    from ok y yd obtain vals where vals: "attrValues dd = Some vals"
      "int (length vals) = componentsPerAttribute dd * c"
      by (auto simp: attrs_ok_def)
    let ?d' = "dd\<lparr>attrValues := Some (pushVertex (componentsPerAttribute a) sv (Some i) vals)\<rparr>"
    have p: "pushInto source (Some i) y = (name, ?d')"
      by (simp add: pushInto_def yd nm look sv vals)
    have new: "\<And>x k. (remap(Some i \<mapsto> c)) x = Some k \<Longrightarrow>
        vertexComponents ?d' (Some k) = vertexComponents a x"
    proof -
      fix x k assume m: "(remap(Some i \<mapsto> c)) x = Some k"
      show "vertexComponents ?d' (Some k) = vertexComponents a x"
      proof (cases "x = Some i")
        case True
        with m have "k = c" by simp
        with True show ?thesis
          using vertexComponents_pushed_new[OF vals desc(2)[symmetric] sv, of i] by simp
      next
        case False
        with m have rx: "remap x = Some k" by simp
        with r have k: "0 \<le> k" "k < c" unfolding remap_ok_def by blast+
        have "vertexComponents ?d' (Some k) = vertexComponents dd (Some k)"
          using vertexComponents_pushed_old[OF vals k] by (simp add: pushVertex_eq)
        with old[OF rx] show ?thesis by simp
      qed
    qed
    show "?R (remap(Some i \<mapsto> c)) x (pushInto source (Some i) y)"
      unfolding p xa using desc new by simp
  qed
  then have "list_all2 (?R (remap(Some i \<mapsto> c))) ?src (map (pushInto source (Some i)) dest)"
    by (simp add: list_all2_map2)
  then show ?thesis by (simp add: data_ok_def copyVertex_pushInto[OF d])
qed

lemma data_ok_initial: "data_ok source (copyAttributesDescriptions source) Map.empty"
  by (simp add: data_ok_def copyAttributesDescriptions_def list_all2_map2 list.rel_refl
      case_prod_unfold)

lemma remap_onto_empty: "remap_onto Map.empty 0"
  by (simp add: remap_onto_def)

lemma remapCorner_data:
  assumes r: "remap_ok n (oldToNewIndex st) (currentIndex st)"
    and a: "attrs_ok source (newAttributes st) (currentIndex st)"
    and o: "remap_onto (oldToNewIndex st) (currentIndex st)"
    and dt: "data_ok source (newAttributes st) (oldToNewIndex st)"
    and d: "distinct (map fst source)"
    and res: "remapCorner source (Some i) st = (k, st')"
  shows "remap_onto (oldToNewIndex st') (currentIndex st')"
    and "data_ok source (newAttributes st') (oldToNewIndex st')"
proof -
  have "remap_onto (oldToNewIndex st') (currentIndex st') \<and>
        data_ok source (newAttributes st') (oldToNewIndex st')"
  proof (cases "oldToNewIndex st (Some i)")
    case (Some k')
    with res have "st' = st" by (simp add: remapCorner_def)
    with o dt show ?thesis by simp
  next
    case None
    let ?c = "currentIndex st"
    from None res have st': "st' = st\<lparr>currentIndex := ?c + 1,
                oldToNewIndex := (oldToNewIndex st)(Some i \<mapsto> ?c),
                newAttributes := copyVertex (newAttributes st) source (Some i)\<rparr>"
      by (auto simp: remapCorner_def)
    have onto: "remap_onto ((oldToNewIndex st)(Some i \<mapsto> ?c)) (?c + 1)"
      unfolding remap_onto_def
    proof (intro allI impI)
      fix k' assume k': "0 \<le> k' \<and> k' < ?c + 1"
      show "\<exists>x. ((oldToNewIndex st)(Some i \<mapsto> ?c)) x = Some k'"
      proof (cases "k' = ?c")
        case True
        then show ?thesis by (intro exI[of _ "Some i"]) simp
      next
        case False
        with k' have "0 \<le> k' \<and> k' < ?c" by simp
        with o obtain x where x: "oldToNewIndex st x = Some k'" unfolding remap_onto_def by blast
        with None have "x \<noteq> Some i" by auto
        with x show ?thesis by (intro exI[of _ x]) simp
      qed
    qed
    show ?thesis
      using onto copyVertex_data_ok[OF dt a r d None] by (simp add: st')
  qed
  then show "remap_onto (oldToNewIndex st') (currentIndex st')"
    and "data_ok source (newAttributes st') (oldToNewIndex st')" by simp_all
qed

lemma sealed_validChunk:
  assumes r: "remap_ok n remap c"
    and o: "remap_onto remap c"
    and a: "attrs_ok (attributes mesh) dest c"
    and dt: "data_ok (attributes mesh) dest remap"
    and pos: "\<forall>(name, a)\<in>set (attributes mesh).
                attrValues a \<noteq> None \<longrightarrow> 0 < componentsPerAttribute a"
    and ne: "filter (\<lambda>(name, a). attrValues a \<noteq> None) (attributes mesh) \<noteq> []"
    and c: "c \<le> 65536"
    and len: "length seg mod 3 = 0"
    and dom: "\<forall>x\<in>set seg. remap x \<noteq> None"
  shows "validChunk mesh n (remap, createMesh dest (primitiveType mesh) (map remap seg))"
proof -
  let ?g = "createMesh dest (primitiveType mesh) (map remap seg)"
  have vc: "computeNumberOfVertices ?g = Inr c"
    by (rule chunk_vertexCount[OF a pos ne])
  have inr: "\<forall>x\<in>set (map remap seg). \<exists>k. x = Some k \<and> 0 \<le> k \<and> k < c"
  proof
    fix y assume "y \<in> set (map remap seg)"
    then obtain x where x: "x \<in> set seg" "y = remap x" by auto
    with dom obtain k where k: "remap x = Some k" by auto
    with r have "0 \<le> k \<and> k < c" unfolding remap_ok_def by blast
    with k x show "\<exists>k. y = Some k \<and> 0 \<le> k \<and> k < c" by simp
  qed
  have pre: "\<And>k. 0 \<le> k \<and> k < c \<Longrightarrow>
      \<exists>x. remap x = Some k \<and> newToOld remap n (Some k) = x \<and> (\<exists>old. x = Some old)"
  proof -
    fix k assume "0 \<le> k \<and> k < c"
    with o obtain x where x: "remap x = Some k" unfolding remap_onto_def by blast
    with r obtain i where "x = Some i" unfolding remap_ok_def by blast
    with x newToOld_remap[OF r x] show
      "\<exists>x. remap x = Some k \<and> newToOld remap n (Some k) = x \<and> (\<exists>old. x = Some old)"
      by blast
  qed
  have from_mesh: "\<forall>k. 0 \<le> k \<and> k < c \<longrightarrow> (\<exists>old. newToOld remap n (Some k) = Some old)"
    using pre by metis
  from dt have l: "list_all2 (\<lambda>(name, a) (name', d).
        name' = name \<and> componentDatatype d = componentDatatype a \<and>
        componentsPerAttribute d = componentsPerAttribute a \<and>
        normalizeFlag d = normalizeFlag a \<and>
        (\<forall>x k. remap x = Some k \<longrightarrow> vertexComponents d (Some k) = vertexComponents a x))
       (filter (\<lambda>(name, a). attrValues a \<noteq> None) (attributes mesh)) dest"
    by (simp add: data_ok_def)
  have data: "list_all2 (\<lambda>(name, a) (name', d).
           name' = name \<and> componentDatatype d = componentDatatype a \<and>
           componentsPerAttribute d = componentsPerAttribute a \<and>
           normalizeFlag d = normalizeFlag a \<and>
           (\<forall>k. 0 \<le> k \<and> k < c \<longrightarrow>
              vertexComponents d (Some k) = vertexComponents a (newToOld remap n (Some k))))
          (filter (\<lambda>(name, a). attrValues a \<noteq> None) (attributes mesh)) dest"
  proof (rule list_all2_mono[OF l])
    fix x y
    assume R: "(case x of (name, a) \<Rightarrow> \<lambda>(name', d).
        name' = name \<and> componentDatatype d = componentDatatype a \<and>
        componentsPerAttribute d = componentsPerAttribute a \<and>
        normalizeFlag d = normalizeFlag a \<and>
        (\<forall>x k. remap x = Some k \<longrightarrow> vertexComponents d (Some k) = vertexComponents a x)) y"
    obtain name a where xa: "x = (name, a)" by (cases x)
    obtain name' d where yd: "y = (name', d)" by (cases y)
    from R xa yd have desc: "name' = name" "componentDatatype d = componentDatatype a"
      "componentsPerAttribute d = componentsPerAttribute a" "normalizeFlag d = normalizeFlag a"
      and old: "\<And>x k. remap x = Some k \<Longrightarrow> vertexComponents d (Some k) = vertexComponents a x"
      by auto
    have "\<forall>k. 0 \<le> k \<and> k < c \<longrightarrow>
              vertexComponents d (Some k) = vertexComponents a (newToOld remap n (Some k))"
    proof (intro allI impI)
      fix k assume "0 \<le> k \<and> k < c"
      from pre[OF this] obtain x where "remap x = Some k" "newToOld remap n (Some k) = x"
        by blast
      with old show "vertexComponents d (Some k) =
          vertexComponents a (newToOld remap n (Some k))" by simp
    qed
    with desc show "(case x of (name, a) \<Rightarrow> \<lambda>(name', d).
           name' = name \<and> componentDatatype d = componentDatatype a \<and>
           componentsPerAttribute d = componentsPerAttribute a \<and>
           normalizeFlag d = normalizeFlag a \<and>
           (\<forall>k. 0 \<le> k \<and> k < c \<longrightarrow>
              vertexComponents d (Some k) = vertexComponents a (newToOld remap n (Some k)))) y"
      by (simp add: xa yd)
  qed
  have g: "primitiveType ?g = primitiveType mesh" "indexList ?g = Some (map remap seg)"
    "attributes ?g = dest"
    by (simp_all add: createMesh_def)
  have len': "length (map remap seg) mod 3 = 0" using len by simp
  show ?thesis
    unfolding validChunk_def prod.case g
    by (intro conjI exI[of _ c] exI[of _ "map remap seg"] refl vc c len' inr from_mesh data)
qed

lemma fitTriangle_inv:
  assumes inv: "fit_inv mesh n idx j st"
    and j: "j + 3 \<le> length idx"
    and valid: "\<forall>x\<in>set idx. \<exists>i. x = Some i \<and> 0 \<le> i \<and> i < n"
    and d: "distinct (map fst (attributes mesh))"
    and pos: "\<forall>(name, a)\<in>set (attributes mesh).
                attrValues a \<noteq> None \<longrightarrow> 0 < componentsPerAttribute a"
    and ne: "filter (\<lambda>(name, a). attrValues a \<noteq> None) (attributes mesh) \<noteq> []"
  shows "fit_inv mesh n idx (j + 3) (fitTriangle mesh idx j st)"
proof -
  let ?A = "attributes mesh"
  have mem: "idx ! j \<in> set idx" "idx ! (j + 1) \<in> set idx" "idx ! (j + 2) \<in> set idx"
    using j by simp_all
  from valid mem(1) obtain i0 where i0: "idx ! j = Some i0" "0 \<le> i0" "i0 < n" by blast
  from valid mem(2) obtain i1 where i1: "idx ! (j + 1) = Some i1" "0 \<le> i1" "i1 < n" by blast
  from valid mem(3) obtain i2 where i2: "idx ! (j + 2) = Some i2" "0 \<le> i2" "i2 < n" by blast
  have g: "js_get idx (int j) = Some i0" "js_get idx (int j + 1) = Some i1"
    "js_get idx (int j + 2) = Some i2"
    using j i0 i1 i2 by (simp_all add: js_get_def nat_add_distrib)
  from inv have r: "remap_ok n (oldToNewIndex st) (currentIndex st)"
    and c: "currentIndex st + 3 \<le> 65536"
    and a: "attrs_ok ?A (newAttributes st) (currentIndex st)"
    and o: "remap_onto (oldToNewIndex st) (currentIndex st)"
    and dt: "data_ok ?A (newAttributes st) (oldToNewIndex st)"
    and ch: "list_all (validChunk mesh n) (geometries st)"
    by (simp_all only: fit_inv_def)
  from inv have "\<exists>seg. concat (map (chunkTriangles n) (geometries st)) @ seg = take j idx \<and>
            length seg mod 3 = 0 \<and>
            newIndices st = map (oldToNewIndex st) seg \<and>
            (\<forall>x\<in>set seg. oldToNewIndex st x \<noteq> None)"
    by (simp only: fit_inv_def)
  then obtain seg where seg0:
    "concat (map (chunkTriangles n) (geometries st)) @ seg = take j idx \<and>
     length seg mod 3 = 0 \<and> newIndices st = map (oldToNewIndex st) seg \<and>
     (\<forall>x\<in>set seg. oldToNewIndex st x \<noteq> None)" ..
  have seg: "concat (map (chunkTriangles n) (geometries st)) @ seg = take j idx"
    "length seg mod 3 = 0" "newIndices st = map (oldToNewIndex st) seg"
    "\<forall>x\<in>set seg. oldToNewIndex st x \<noteq> None"
    using seg0 by (rule conjunct1, rule conjunct1[OF conjunct2], rule conjunct1[OF conjunct2[OF conjunct2]],
      rule conjunct2[OF conjunct2[OF conjunct2]])
  obtain k0 st1 where c0: "remapCorner ?A (Some i0) st = (k0, st1)" by (cases "remapCorner ?A (Some i0) st")
  note p1 = remapCorner_props[OF r a d pos i0(2,3) c0]
  note q1 = remapCorner_data[OF r a o dt d c0]
  obtain k1 st2 where c1: "remapCorner ?A (Some i1) st1 = (k1, st2)" by (cases "remapCorner ?A (Some i1) st1")
  note r1 = p1(2) and a1 = p1(4)
  note p2 = remapCorner_props[OF r1 a1 d pos i1(2,3) c1]
  note q2 = remapCorner_data[OF r1 a1 q1 d c1]
  obtain k2 st3 where c2: "remapCorner ?A (Some i2) st2 = (k2, st3)" by (cases "remapCorner ?A (Some i2) st2")
  note r2 = p2(2) and a2 = p2(4)
  note p3 = remapCorner_props[OF r2 a2 d pos i2(2,3) c2]
  note q3 = remapCorner_data[OF r2 a2 q2 d c2]
  note r3 = p3(2) and a3 = p3(4) and o3 = q3(1) and dt3 = q3(2)
  let ?remap = "oldToNewIndex st3"
  note le01 = p1(5) and le12 = p2(5) and le23 = p3(5)
  have le03: "oldToNewIndex st \<subseteq>\<^sub>m ?remap"
    by (rule map_le_trans[OF map_le_trans[OF le01 le12] le23])
  have m0: "?remap (Some i0) = Some k0"
    by (rule map_le_lookup[OF le23 map_le_lookup[OF le12 p1(1)]])
  have m1: "?remap (Some i1) = Some k1"
    by (rule map_le_lookup[OF le23 p2(1)])
  note m2 = p3(1)
  have c3: "currentIndex st3 \<le> currentIndex st + 3" using p1(3) p2(3) p3(3) by linarith
  have ni3: "newIndices st3 = newIndices st" using p1(6) p2(6) p3(6) by simp
  have g3: "geometries st3 = geometries st" using p1(7) p2(7) p3(7) by simp
  let ?tri = "[Some i0, Some i1, Some i2]"
  let ?seg = "seg @ ?tri"
  have mapseg: "map ?remap seg = map (oldToNewIndex st) seg"
  proof (rule map_cong[OF refl])
    fix x assume "x \<in> set seg"
    with seg(4) obtain k where "oldToNewIndex st x = Some k" by auto
    with map_le_lookup[OF le03 this] show "?remap x = oldToNewIndex st x" by simp
  qed
  define st4 where "st4 = st3\<lparr>newIndices := newIndices st3 @ [Some k0] @ [Some k1] @ [Some k2]\<rparr>"
  have ni4: "newIndices st4 = map ?remap ?seg"
    by (simp add: st4_def ni3 seg(3) mapseg m0 m1 m2)
  have dom4: "\<forall>x\<in>set ?seg. ?remap x \<noteq> None"
  proof
    fix x assume "x \<in> set ?seg"
    then consider "x \<in> set seg" | "x = Some i0" | "x = Some i1" | "x = Some i2" by auto
    then show "?remap x \<noteq> None"
    proof cases
      case 1
      with seg(4) obtain k where "oldToNewIndex st x = Some k" by auto
      from map_le_lookup[OF le03 this] show ?thesis by simp
    qed (simp_all add: m0 m1 m2)
  qed
  have len4: "length ?seg mod 3 = 0" using seg(2) by simp
  have tk: "take (j + 3) idx = take j idx @ ?tri"
    using take_three[OF j] i0 i1 i2 by simp
  have whole: "concat (map (chunkTriangles n) (geometries st)) @ ?seg = take (j + 3) idx"
    using seg(1) tk by simp
  have ft: "fitTriangle mesh idx j st =
            (if currentIndex st4 + 3 > sixtyFourK then sealGeometry mesh st4 else st4)"
    by (simp add: fitTriangle_def g c0 c1 c2 Let_def st4_def)
  have st4_fields: "oldToNewIndex st4 = ?remap" "currentIndex st4 = currentIndex st3"
    "newAttributes st4 = newAttributes st3" "geometries st4 = geometries st"
    by (simp_all add: st4_def g3)
  show ?thesis
  proof (cases "currentIndex st4 + 3 > sixtyFourK")
    case False
    then have "currentIndex st3 + 3 \<le> 65536" by (simp add: st4_fields sixtyFourK_def)
    moreover have "\<exists>seg'. concat (map (chunkTriangles n) (geometries st4)) @ seg' = take (j + 3) idx \<and>
        length seg' mod 3 = 0 \<and> newIndices st4 = map (oldToNewIndex st4) seg' \<and>
        (\<forall>x\<in>set seg'. oldToNewIndex st4 x \<noteq> None)"
      unfolding st4_fields
      by (rule exI[of _ ?seg]) (intro conjI whole len4 ni4 dom4)
    ultimately have "fit_inv mesh n idx (j + 3) st4"
      unfolding fit_inv_def st4_fields by (intro conjI r3 a3 o3 dt3 ch)
    with False ft show ?thesis by simp
  next
    case True
    let ?chunk = "(?remap, createMesh (newAttributes st3) (primitiveType mesh) (newIndices st4))"
    have sealed: "sealGeometry mesh st4 =
        st4\<lparr>geometries := geometries st @ [?chunk],
            oldToNewIndex := Map.empty, newIndices := [], currentIndex := 0,
            newAttributes := copyAttributesDescriptions ?A\<rparr>"
      by (simp add: sealGeometry_def st4_fields)
    have "currentIndex st3 \<le> 65536" using c3 c by linarith
    from sealed_validChunk[OF r3 o3 a3 dt3 pos ne this len4 dom4]
    have cok: "validChunk mesh n ?chunk" by (simp only: ni4)
    have ct: "chunkTriangles n ?chunk = ?seg"
      using newToOld_segment[OF r3 dom4] by (simp add: chunkTriangles_def createMesh_def ni4)
    have "concat (map (chunkTriangles n) (geometries st @ [?chunk])) @ [] = take (j + 3) idx"
      using whole ct by simp
    then have ex: "\<exists>seg'. concat (map (chunkTriangles n) (geometries st @ [?chunk])) @ seg' =
          take (j + 3) idx \<and> length seg' mod 3 = 0 \<and> [] = map Map.empty seg' \<and>
          (\<forall>x\<in>set seg'. Map.empty x \<noteq> None)"
      by (intro exI[of _ "[]"]) simp
    have chs: "list_all (validChunk mesh n) (geometries st @ [?chunk])" using ch cok by simp
    have f: "oldToNewIndex (sealGeometry mesh st4) = Map.empty"
      "currentIndex (sealGeometry mesh st4) = 0"
      "newAttributes (sealGeometry mesh st4) = copyAttributesDescriptions ?A"
      "newIndices (sealGeometry mesh st4) = []"
      "geometries (sealGeometry mesh st4) = geometries st @ [?chunk]"
      by (simp_all add: sealed)
    have "fit_inv mesh n idx (j + 3) (sealGeometry mesh st4)"
      unfolding fit_inv_def f
      by (intro conjI remap_ok_empty attrs_ok_initial remap_onto_empty data_ok_initial chs ex)
        simp
    with True ft show ?thesis by simp
  qed
qed

lemma fit_loop_inv:
  assumes "fit_inv mesh n idx j st" "j mod 3 = 0" "length idx mod 3 = 0" "j \<le> length idx"
    and valid: "\<forall>x\<in>set idx. \<exists>i. x = Some i \<and> 0 \<le> i \<and> i < n"
    and d: "distinct (map fst (attributes mesh))"
    and pos: "\<forall>(name, a)\<in>set (attributes mesh).
                attrValues a \<noteq> None \<longrightarrow> 0 < componentsPerAttribute a"
    and ne: "filter (\<lambda>(name, a). attrValues a \<noteq> None) (attributes mesh) \<noteq> []"
  shows "fit_inv mesh n idx (length idx) (fit_loop mesh idx j st)"
  using assms
proof (induction mesh idx j st rule: fit_loop.induct)
  case (1 mesh idx j st)
  show ?case
  proof (cases "j < length idx")
    case False
    with "1.prems" have "j = length idx" by simp
    with "1.prems" False show ?thesis by (subst fit_loop.simps) simp
  next
    case True
    with "1.prems" have le: "j + 3 \<le> length idx" by presburger
    have m: "(j + 3) mod 3 = 0" using "1.prems" by presburger
    have step: "fit_inv mesh n idx (j + 3) (fitTriangle mesh idx j st)"
      by (rule fitTriangle_inv[OF "1.prems"(1) le "1.prems"(5-8)])
    have "fit_inv mesh n idx (length idx) (fit_loop mesh idx (j + 3) (fitTriangle mesh idx j st))"
      by (rule "1.IH"[OF True step m "1.prems"(3) le "1.prems"(5-8)])
    then show ?thesis using True by (subst fit_loop.simps) simp
  qed
qed

lemma computeNumberOfVertices_loop_no_values:
  "filter (\<lambda>(name, a). attrValues a \<noteq> None) attrs = [] \<Longrightarrow>
   computeNumberOfVertices_loop attrs acc = Inr (case acc of None \<Rightarrow> 0 | Some n \<Rightarrow> n)"
proof (induction attrs arbitrary: acc)
  case Nil
  then show ?case by simp
next
  case (Cons e attrs)
  obtain name a where e: "e = (name, a)" by (cases e)
  from Cons.prems e have "attrValues a = None"
    "filter (\<lambda>(name, a). attrValues a \<noteq> None) attrs = []"
    by (auto split: if_splits)
  with Cons.IH show ?case by (simp add: e)
qed

text \<open>A chunk holds at most 65536 vertices, so its triangles name at most 65536 vertices
  of the mesh.\<close>

lemma validChunk_card:
  assumes "validChunk mesh n chunk"
  shows "card (set (chunkTriangles n chunk)) \<le> 65536"
proof -
  obtain remap g where chunk: "chunk = (remap, g)" by (cases chunk)
  from assms chunk obtain c indices where c: "c \<le> 65536"
    and il: "indexList g = Some indices"
    and inr: "\<forall>x\<in>set indices. \<exists>k. x = Some k \<and> 0 \<le> k \<and> k < c"
    unfolding validChunk_def by auto
  have sub: "set indices \<subseteq> (\<lambda>k. Some (int k)) ` {0 ..< nat c}"
  proof
    fix x assume "x \<in> set indices"
    with inr obtain k where k: "x = Some k" "0 \<le> k" "k < c" by blast
    then have "nat k \<in> {0 ..< nat c}" "x = Some (int (nat k))" by simp_all
    then show "x \<in> (\<lambda>k. Some (int k)) ` {0 ..< nat c}" by blast
  qed
  have "card (set (chunkTriangles n chunk)) = card (newToOld remap n ` set indices)"
    by (simp add: chunkTriangles_def chunk il)
  also have "\<dots> \<le> card (set indices)" by (rule card_image_le) simp
  also have "\<dots> \<le> card ((\<lambda>k. Some (int k)) ` {0 ..< nat c})"
    by (rule card_mono[OF _ sub]) simp
  also have "\<dots> \<le> card {0 ..< nat c}" by (rule card_image_le) simp
  also have "\<dots> \<le> 65536" using c by simp
  finally show ?thesis .
qed

text \<open>
  Claim C4. For a TRIANGLES mesh (its attributes under distinct names, as in any object)
  with more than 65536 vertices and an index list of valid indices whose length is a
  multiple of three, the filter returns chunks, each with the table that sends the old
  indices of its vertices to the new ones (the chunk's vertex remap). Each chunk is a mesh
  of the same primitive type with at most 65536 vertices and an index list whose length is
  a multiple of three; each of its indices names one of its vertices; each of its vertices
  comes, by the remap, from a vertex of the mesh; and it has the attributes of the mesh
  that carry values, under the same names and descriptions, holding for each of its
  vertices the components that the mesh holds for the vertex it comes from. Mapping the
  indices of each chunk back through the chunk's vertex remap and concatenating the chunks
  in order gives back the original index list.
\<close>

theorem fitToUnsignedShortIndices_chunks_correct:
  assumes t: "primitiveType mesh = TRIANGLES"
    and il: "indexList mesh = Some idx"
    and m3: "length idx mod 3 = 0"
    and n: "computeNumberOfVertices mesh = Inr n"
    and big: "n > 65536"
    and valid: "\<forall>x\<in>set idx. \<exists>i. x = Some i \<and> 0 \<le> i \<and> i < n"
    and d: "distinct (map fst (attributes mesh))"
  shows "\<exists>chunks.
           fitToUnsignedShortIndices_chunks (Some mesh) = Inr chunks \<and>
           fitToUnsignedShortIndices (Some mesh) = Inr (map snd chunks) \<and>
           list_all (validChunk mesh n) chunks \<and>
           concat (map (chunkTriangles n) chunks) = idx"
proof -
  let ?A = "attributes mesh"
  have pos: "\<forall>(name, a)\<in>set ?A. attrValues a \<noteq> None \<longrightarrow> 0 < componentsPerAttribute a"
    using computeNumberOfVertices_attribute[OF n] by auto
  have ne: "filter (\<lambda>(name, a). attrValues a \<noteq> None) ?A \<noteq> []"
  proof
    assume "filter (\<lambda>(name, a). attrValues a \<noteq> None) ?A = []"
    from computeNumberOfVertices_loop_no_values[OF this, of None] n big
    show False by (simp add: computeNumberOfVertices_def)
  qed
  define st0 where "st0 = \<lparr>oldToNewIndex = Map.empty, newIndices = [], currentIndex = 0,
     newAttributes = copyAttributesDescriptions ?A, geometries = []\<rparr>"
  have ex0: "\<exists>seg. concat (map (chunkTriangles n) []) @ seg = take 0 idx \<and>
            length seg mod 3 = 0 \<and> [] = map Map.empty seg \<and>
            (\<forall>x\<in>set seg. Map.empty x \<noteq> None)"
    by (intro exI[of _ "[]"]) simp
  have f0: "oldToNewIndex st0 = Map.empty" "currentIndex st0 = 0"
    "newAttributes st0 = copyAttributesDescriptions ?A" "newIndices st0 = []" "geometries st0 = []"
    by (simp_all add: st0_def)
  have inv0: "fit_inv mesh n idx 0 st0"
    unfolding fit_inv_def f0
    by (intro conjI remap_ok_empty attrs_ok_initial remap_onto_empty data_ok_initial ex0)
      simp_all
  define st where "st = fit_loop mesh idx 0 st0"
  have inv: "fit_inv mesh n idx (length idx) st"
    unfolding st_def by (rule fit_loop_inv[OF inv0 _ m3 _ valid d pos ne]) simp_all
  define chunks where "chunks = (if length (newIndices st) \<noteq> 0
     then geometries (sealGeometry mesh st) else geometries st)"
  have res: "fitToUnsignedShortIndices_chunks (Some mesh) = Inr chunks"
    using big by (simp add: fitToUnsignedShortIndices_chunks_def t n il bindE_def sixtyFourK_def
        st0_def[symmetric] st_def[symmetric] chunks_def Let_def)
  then have res2: "fitToUnsignedShortIndices (Some mesh) = Inr (map snd chunks)"
    by (simp add: fitToUnsignedShortIndices_def)
  from inv have r: "remap_ok n (oldToNewIndex st) (currentIndex st)"
    and c: "currentIndex st + 3 \<le> 65536"
    and a: "attrs_ok ?A (newAttributes st) (currentIndex st)"
    and o: "remap_onto (oldToNewIndex st) (currentIndex st)"
    and dt: "data_ok ?A (newAttributes st) (oldToNewIndex st)"
    and ch: "list_all (validChunk mesh n) (geometries st)"
    by (simp_all only: fit_inv_def)
  from inv have "\<exists>seg. concat (map (chunkTriangles n) (geometries st)) @ seg = take (length idx) idx \<and>
            length seg mod 3 = 0 \<and>
            newIndices st = map (oldToNewIndex st) seg \<and>
            (\<forall>x\<in>set seg. oldToNewIndex st x \<noteq> None)"
    by (simp only: fit_inv_def)
  then obtain seg where seg0:
    "concat (map (chunkTriangles n) (geometries st)) @ seg = take (length idx) idx \<and>
     length seg mod 3 = 0 \<and> newIndices st = map (oldToNewIndex st) seg \<and>
     (\<forall>x\<in>set seg. oldToNewIndex st x \<noteq> None)" ..
  have seg: "concat (map (chunkTriangles n) (geometries st)) @ seg = idx"
    "length seg mod 3 = 0" "newIndices st = map (oldToNewIndex st) seg"
    "\<forall>x\<in>set seg. oldToNewIndex st x \<noteq> None"
    using seg0 by simp_all
  have "list_all (validChunk mesh n) chunks \<and> concat (map (chunkTriangles n) chunks) = idx"
  proof (cases "length (newIndices st) \<noteq> 0")
    case False
    then have "seg = []" using seg(3) by simp
    with False ch seg(1) show ?thesis by (simp add: chunks_def)
  next
    case True
    let ?chunk = "(oldToNewIndex st, createMesh (newAttributes st) (primitiveType mesh) (newIndices st))"
    have cs: "chunks = geometries st @ [?chunk]"
      using True by (simp add: chunks_def sealGeometry_def)
    have "currentIndex st \<le> 65536" using c by linarith
    from sealed_validChunk[OF r o a dt pos ne this seg(2) seg(4)]
    have cok: "validChunk mesh n ?chunk" by (simp only: seg(3))
    have ct: "chunkTriangles n ?chunk = seg"
      using newToOld_segment[OF r seg(4)] by (simp add: chunkTriangles_def createMesh_def seg(3))
    show ?thesis using ch cok ct seg(1) by (simp add: cs)
  qed
  with res res2 show ?thesis by blast
qed

theorem fitToUnsignedShortIndices_chunks_correct_witness:
  "primitiveType manyTriangles = TRIANGLES \<and>
   indexList manyTriangles = Some manyIndices \<and>
   length manyIndices mod 3 = 0 \<and>
   computeNumberOfVertices manyTriangles = Inr 65538 \<and>
   list_all (\<lambda>x. x \<noteq> None \<and> 0 \<le> the x \<and> the x < 65538) manyIndices \<and>
   distinct (map fst (attributes manyTriangles)) \<and>
   (\<exists>chunks.
      fitToUnsignedShortIndices_chunks (Some manyTriangles) = Inr chunks \<and>
      fitToUnsignedShortIndices (Some manyTriangles) = Inr (map snd chunks) \<and>
      2 \<le> length chunks \<and>
      list_all (validChunk manyTriangles 65538) chunks \<and>
      concat (map (chunkTriangles 65538) chunks) = manyIndices)"
proof -
  have t: "primitiveType manyTriangles = TRIANGLES" by (simp add: manyTriangles_def)
  have il: "indexList manyTriangles = Some manyIndices" by (simp add: manyTriangles_def)
  have m3: "length manyIndices mod 3 = 0" by (simp add: manyIndices_def)
  have len: "length manyPositions = 196614"
    by (simp add: manyPositions_def length_concat comp_def sum_list_triv)
  have n: "computeNumberOfVertices manyTriangles = Inr 65538"
    by (simp add: manyTriangles_def computeNumberOfVertices_def positionAttribute_def
        attributeVertexCount_def len)
  have big: "(65538::int) > 65536" by simp
  have valid: "\<forall>x\<in>set manyIndices. \<exists>i. x = Some i \<and> 0 \<le> i \<and> i < (65538::int)"
    by (auto simp: manyIndices_def)
  have valid': "list_all (\<lambda>x. x \<noteq> None \<and> 0 \<le> the x \<and> the x < 65538) manyIndices"
    by (auto simp: manyIndices_def list_all_iff)
  have d: "distinct (map fst (attributes manyTriangles))" by (simp add: manyTriangles_def)
  from fitToUnsignedShortIndices_chunks_correct[OF t il m3 n big valid d]
  obtain chunks where
    r: "fitToUnsignedShortIndices_chunks (Some manyTriangles) = Inr chunks"
       "fitToUnsignedShortIndices (Some manyTriangles) = Inr (map snd chunks)"
    and ok: "list_all (validChunk manyTriangles 65538) chunks"
    and whole: "concat (map (chunkTriangles 65538) chunks) = manyIndices"
    by blast
  have dist: "distinct manyIndices"
    by (simp add: manyIndices_def distinct_map inj_on_def)
  have card: "card (set manyIndices) = 65538"
    using distinct_card[OF dist] by (simp add: manyIndices_def)
  have two: "2 \<le> length chunks"
  proof (rule ccontr)
    assume "\<not> 2 \<le> length chunks"
    then consider "chunks = []" | chunk where "chunks = [chunk]"
      by (cases chunks; cases "tl chunks") auto
    then show False
    proof cases
      case 1
      with whole have "set manyIndices = {}" by simp
      with card show False by simp
    next
      case 2
      with whole have "set (chunkTriangles 65538 chunk) = set manyIndices" by simp
      moreover from ok 2 have "card (set (chunkTriangles 65538 chunk)) \<le> 65536"
        using validChunk_card by simp
      ultimately show False using card by simp
    qed
  qed
  from r two ok whole t il m3 n valid' d show ?thesis by blast
qed

section \<open>computeNormal: the vertices no triangle uses\<close>

text \<open>The vertex an index names.\<close>

lemma lookupVertex_valid:
  assumes "validIndices n indices" "x \<in> set indices" "length npv = n"
  shows "lookupVertex npv x = Some (vertexOf x) \<and> vertexOf x < n"
proof -
  from assms(1,2) obtain i where "x = Some i" "0 \<le> i" "i < int n"
    unfolding validIndices_def by blast
  then show ?thesis using assms(3) by (simp add: lookupVertex_def vertexOf_def)
qed

lemma incrementCount_valid:
  assumes "validIndices n indices" "x \<in> set indices" "length npv = n"
  shows "incrementCount npv x =
         Inr (npv[vertexOf x := (npv ! vertexOf x)\<lparr>count := count (npv ! vertexOf x) + 1\<rparr>])"
  using lookupVertex_valid[OF assms] by (simp add: incrementCount_def)

text \<open>The counts after some corners have been counted.\<close>

lemma counted_refl: "counted npv [] npv"
  by (simp add: counted_def)

lemma counted_step:
  assumes "counted npv vs npv'" "w < length npv"
  shows "counted npv (vs @ [w]) (npv'[w := (npv' ! w)\<lparr>count := count (npv' ! w) + 1\<rparr>])"
  using assms by (auto simp: counted_def nth_list_update)

lemma countTriangles_loop_counted:
  assumes "validIndices n indices" "length npv0 = n" "length indices mod 3 = 0"
    and "i mod 3 = 0" "i \<le> length indices"
    and "counted npv0 (map vertexOf (take i indices)) npv"
  shows "\<exists>npv' npt'. countTriangles_loop ops vertices indices i npv npt = Inr (npv', npt') \<and>
           counted npv0 (map vertexOf indices) npv' \<and>
           length npt' = length npt + (length indices - i) div 3"
  using assms
proof (induction ops vertices indices i npv npt rule: countTriangles_loop.induct)
  case (1 ops vertices indices i npv npt)
  show ?case
  proof (cases "i < length indices")
    case False
    with "1.prems" have "i = length indices" by simp
    with "1.prems" show ?thesis by (subst countTriangles_loop.simps) simp
  next
    case True
    with "1.prems" have le: "i + 3 \<le> length indices" by presburger
    have m: "(i + 3) mod 3 = 0" using "1.prems" by presburger
    let ?x0 = "indices ! i" and ?x1 = "indices ! Suc i" and ?x2 = "indices ! Suc (Suc i)"
    have g: "js_get indices (int i) = ?x0" "js_get indices (int i + 1) = ?x1"
      "js_get indices (int i + 2) = ?x2"
      using le by (simp_all add: js_get_def nat_add_distrib)
    have mem: "?x0 \<in> set indices" "?x1 \<in> set indices" "?x2 \<in> set indices"
      using le by simp_all
    have len: "length npv = n" using "1.prems"(2,6) by (simp add: counted_def)
    note v = "1.prems"(1)
    let ?w0 = "vertexOf ?x0" and ?w1 = "vertexOf ?x1" and ?w2 = "vertexOf ?x2"
    have w: "?w0 < length npv0" "?w1 < length npv0" "?w2 < length npv0"
      using lookupVertex_valid[OF v mem(1) len] lookupVertex_valid[OF v mem(2) len]
        lookupVertex_valid[OF v mem(3) len] "1.prems"(2) by simp_all
    define npv1 where "npv1 = npv[?w0 := (npv ! ?w0)\<lparr>count := count (npv ! ?w0) + 1\<rparr>]"
    define npv2 where "npv2 = npv1[?w1 := (npv1 ! ?w1)\<lparr>count := count (npv1 ! ?w1) + 1\<rparr>]"
    define npv3 where "npv3 = npv2[?w2 := (npv2 ! ?w2)\<lparr>count := count (npv2 ! ?w2) + 1\<rparr>]"
    have l1: "length npv1 = n" and l2: "length npv2 = n" and l3: "length npv3 = n"
      using len by (simp_all add: npv1_def npv2_def npv3_def)
    have i0: "incrementCount npv ?x0 = Inr npv1"
      using incrementCount_valid[OF v mem(1) len] by (simp add: npv1_def)
    have i1: "incrementCount npv1 ?x1 = Inr npv2"
      using incrementCount_valid[OF v mem(2) l1] by (simp add: npv2_def)
    have i2: "incrementCount npv2 ?x2 = Inr npv3"
      using incrementCount_valid[OF v mem(3) l2] by (simp add: npv3_def)
    let ?vs = "map vertexOf (take i indices)"
    have c1: "counted npv0 (?vs @ [?w0]) npv1"
      unfolding npv1_def by (rule counted_step[OF "1.prems"(6) w(1)])
    have c2: "counted npv0 ((?vs @ [?w0]) @ [?w1]) npv2"
      unfolding npv2_def by (rule counted_step[OF c1 w(2)])
    have c3: "counted npv0 (((?vs @ [?w0]) @ [?w1]) @ [?w2]) npv3"
      unfolding npv3_def by (rule counted_step[OF c2 w(3)])
    have tk: "take (i + 3) indices = take i indices @ [?x0, ?x1, ?x2]"
    proof -
      have "take (i + 3) indices = take (Suc (Suc (Suc i))) indices" by (simp add: numeral_3_eq_3)
      also have "\<dots> = take i indices @ [indices ! i, indices ! Suc i, indices ! Suc (Suc i)]"
        using le by (simp add: take_Suc_conv_app_nth)
      finally show ?thesis .
    qed
    have c3': "counted npv0 (map vertexOf (take (i + 3) indices)) npv3"
      using c3 by (simp add: tk)
    define normal where "normal = Cartesian3_cross ops
        (Cartesian3_subtract ops (readVertex vertices ?x1) (readVertex vertices ?x0))
        (Cartesian3_subtract ops (readVertex vertices ?x2) (readVertex vertices ?x0))"
    have step: "countTriangles_loop ops vertices indices i npv npt =
                countTriangles_loop ops vertices indices (i + 3) npv3 (npt @ [normal])"
      using True
      by (subst countTriangles_loop.simps) (simp add: g i0 i1 i2 bindE_def Let_def normal_def)
    have "\<exists>npv' npt'. countTriangles_loop ops vertices indices (i + 3) npv3 (npt @ [normal]) =
             Inr (npv', npt') \<and> counted npv0 (map vertexOf indices) npv' \<and>
             length npt' = length (npt @ [normal]) + (length indices - (i + 3)) div 3"
      unfolding normal_def
      apply (rule "1.IH"[OF True refl refl refl refl refl refl])
      using i0 i1 i2 "1.prems"(1,2,3) m le c3' by (simp_all add: g)
    moreover have "length (npt @ [normal]) + (length indices - (i + 3)) div 3 =
                   length npt + (length indices - i) div 3"
      using le by simp
    ultimately show ?thesis by (simp only: step)
  qed
qed

lemma offsetOf_Suc: "offsetOf cnt (Suc v) = offsetOf cnt v + cnt v"
  by (simp add: offsetOf_def)

lemma offsetOf_mono: "v \<le> w \<Longrightarrow> offsetOf cnt v \<le> offsetOf cnt w"
proof (induction w)
  case 0
  then show ?case by simp
next
  case (Suc w)
  then show ?case by (cases "v = Suc w") (auto simp: offsetOf_Suc)
qed

lemma offsetOf_region: "v < w \<Longrightarrow> offsetOf cnt v + cnt v \<le> offsetOf cnt w"
  using offsetOf_mono[of "Suc v" w cnt] by (simp add: offsetOf_Suc)

lemma assignOffsets_fold:
  assumes "m \<le> length npv"
  shows "fold (\<lambda>i (npv, offset).
                  (npv[i := (npv ! i)\<lparr>indexOffset := indexOffset (npv ! i) + offset\<rparr>],
                   offset + count (npv ! i)))
            [0 ..< m] (npv, 0) =
         (map (\<lambda>v. if v < m
                   then (npv ! v)\<lparr>indexOffset := indexOffset (npv ! v) +
                                  offsetOf (\<lambda>u. count (npv ! u)) v\<rparr>
                   else npv ! v) [0 ..< length npv],
          offsetOf (\<lambda>u. count (npv ! u)) m)"
  using assms
proof (induction m)
  case 0
  then show ?case by (simp add: offsetOf_def map_nth)
next
  case (Suc m)
  let ?cnt = "\<lambda>u. count (npv ! u)"
  let ?cur = "map (\<lambda>v. if v < m
                   then (npv ! v)\<lparr>indexOffset := indexOffset (npv ! v) + offsetOf ?cnt v\<rparr>
                   else npv ! v) [0 ..< length npv]"
  have m: "m < length npv" using Suc.prems by simp
  have cm: "?cur ! m = npv ! m" using m by simp
  let ?new = "map (\<lambda>v. if v < Suc m
                   then (npv ! v)\<lparr>indexOffset := indexOffset (npv ! v) + offsetOf ?cnt v\<rparr>
                   else npv ! v) [0 ..< length npv]"
  have upd: "?cur[m := (npv ! m)\<lparr>indexOffset := indexOffset (npv ! m) + offsetOf ?cnt m\<rparr>] = ?new"
  proof (rule nth_equalityI)
    show "length (?cur[m := (npv ! m)\<lparr>indexOffset := indexOffset (npv ! m) + offsetOf ?cnt m\<rparr>])
          = length ?new" by simp
  next
    fix v assume "v < length (?cur[m := (npv ! m)\<lparr>indexOffset := indexOffset (npv ! m) + offsetOf ?cnt m\<rparr>])"
    then have v: "v < length npv" by simp
    show "?cur[m := (npv ! m)\<lparr>indexOffset := indexOffset (npv ! m) + offsetOf ?cnt m\<rparr>] ! v = ?new ! v"
    proof (cases "v = m")
      case True
      then show ?thesis using m by simp
    next
      case False
      then have "(v < Suc m) = (v < m)" by auto
      with False v show ?thesis by simp
    qed
  qed
  have IH: "fold (\<lambda>i (npv, offset).
                  (npv[i := (npv ! i)\<lparr>indexOffset := indexOffset (npv ! i) + offset\<rparr>],
                   offset + count (npv ! i)))
            [0 ..< m] (npv, 0) = (?cur, offsetOf ?cnt m)"
    using Suc by simp
  show ?case
    by (simp only: upt_Suc_append[OF le0] fold_append comp_apply IH fold_simps prod.case cm upd
        offsetOf_Suc)
qed

lemma assignOffsets_eq:
  "assignOffsets npv =
     map (\<lambda>v. (npv ! v)\<lparr>indexOffset := indexOffset (npv ! v) +
                              offsetOf (\<lambda>u. count (npv ! u)) v\<rparr>) [0 ..< length npv]"
  using assignOffsets_fold[of "length npv" npv] by (simp add: assignOffsets_def cong: map_cong)

lemma placeTriangle_buckets:
  assumes b: "buckets n cnt T vs (npv, nI)" and w: "w < n"
    and l: "lookupVertex npv x = Some w" and j: "j < T"
  shows "\<exists>st'. placeTriangle j x (npv, nI) = Inr st' \<and> buckets n cnt T (vs @ [w]) st'"
proof -
  from b have len: "length npv = n"
    and f: "\<forall>v < n. indexOffset (npv ! v) = offsetOf cnt v \<and> count (npv ! v) = cnt v \<and>
        currentCount (npv ! v) = count_list vs v"
    and s: "\<forall>v < n. \<forall>k < count_list vs v.
        \<exists>t < T. js_get nI (int (offsetOf cnt v + k)) = Some t"
    by (simp_all add: buckets_def)
  let ?slot = "offsetOf cnt w + count_list vs w"
  let ?npv' = "npv[w := (npv ! w)\<lparr>currentCount := currentCount (npv ! w) + 1\<rparr>]"
  let ?nI' = "js_set nI (int ?slot) (Some j)"
  have fw: "indexOffset (npv ! w) = offsetOf cnt w" "currentCount (npv ! w) = count_list vs w"
    using f w by simp_all
  have res: "placeTriangle j x (npv, nI) = Inr (?npv', ?nI')"
    by (simp add: placeTriangle_def l Let_def fw)
  have "buckets n cnt T (vs @ [w]) (?npv', ?nI')"
    unfolding buckets_def prod.case
  proof (intro conjI allI impI)
    show "length ?npv' = n" using len by simp
  next
    fix v assume v: "v < n"
    show "indexOffset (?npv' ! v) = offsetOf cnt v"
      using f v len by (cases "v = w") simp_all
    show "count (?npv' ! v) = cnt v"
      using f v len by (cases "v = w") simp_all
    show "currentCount (?npv' ! v) = count_list (vs @ [w]) v"
      using f v len by (cases "v = w") simp_all
  next
    fix v k assume v: "v < n" and k: "k < count_list (vs @ [w]) v"
    show "\<exists>t<T. js_get ?nI' (int (offsetOf cnt v + k)) = Some t"
    proof (cases "offsetOf cnt v + k = ?slot")
      case True
      then show ?thesis using j by (simp add: js_get_js_set)
    next
      case False
      have "k < count_list vs v"
      proof (cases "v = w")
        case True
        with False have "k \<noteq> count_list vs w" by auto
        with k True show ?thesis by simp
      next
        case F2: False
        with k show ?thesis by simp
      qed
      with s v obtain t where "t < T" "js_get nI (int (offsetOf cnt v + k)) = Some t" by blast
      with False show ?thesis by (simp add: js_get_js_set)
    qed
  qed
  with res show ?thesis by blast
qed

lemma placeTriangles_loop_buckets:
  assumes "validIndices n indices" "length indices mod 3 = 0"
    and "i mod 3 = 0" "i \<le> length indices" "j = i div 3"
    and "buckets n cnt (length indices div 3) (map vertexOf (take i indices)) st"
  shows "\<exists>st'. placeTriangles_loop indices i j st = Inr st' \<and>
           buckets n cnt (length indices div 3) (map vertexOf indices) st'"
  using assms
proof (induction indices i j st rule: placeTriangles_loop.induct)
  case (1 indices i j st)
  show ?case
  proof (cases "i < length indices")
    case False
    with "1.prems" have "i = length indices" by simp
    with "1.prems" show ?thesis by (subst placeTriangles_loop.simps) simp
  next
    case True
    with "1.prems" have le: "i + 3 \<le> length indices" by presburger
    have m: "(i + 3) mod 3 = 0" using "1.prems" by presburger
    have jT: "j < length indices div 3" using "1.prems"(3,5) le by presburger
    have j': "j + 1 = (i + 3) div 3" using "1.prems"(5) by simp
    let ?x0 = "indices ! i" and ?x1 = "indices ! Suc i" and ?x2 = "indices ! Suc (Suc i)"
    have g: "js_get indices (int i) = ?x0" "js_get indices (int i + 1) = ?x1"
      "js_get indices (int i + 2) = ?x2"
      using le by (simp_all add: js_get_def nat_add_distrib)
    have mem: "?x0 \<in> set indices" "?x1 \<in> set indices" "?x2 \<in> set indices"
      using le by simp_all
    note v = "1.prems"(1)
    let ?T = "length indices div 3"
    let ?vs = "map vertexOf (take i indices)"
    obtain npv nI where st: "st = (npv, nI)" by (cases st)
    have len: "length npv = n" using "1.prems"(6) by (simp add: buckets_def st)
    from placeTriangle_buckets[OF "1.prems"(6)[unfolded st] _ _ jT, of "vertexOf ?x0" ?x0]
      lookupVertex_valid[OF v mem(1) len]
    obtain st1 where s1: "placeTriangle j ?x0 st = Inr st1"
      "buckets n cnt ?T (?vs @ [vertexOf ?x0]) st1" unfolding st by blast
    obtain npv1 nI1 where st1: "st1 = (npv1, nI1)" by (cases st1)
    have len1: "length npv1 = n" using s1(2) by (simp add: buckets_def st1)
    from placeTriangle_buckets[OF s1(2)[unfolded st1] _ _ jT, of "vertexOf ?x1" ?x1]
      lookupVertex_valid[OF v mem(2) len1]
    obtain st2 where s2: "placeTriangle j ?x1 st1 = Inr st2"
      "buckets n cnt ?T ((?vs @ [vertexOf ?x0]) @ [vertexOf ?x1]) st2" unfolding st1 by blast
    obtain npv2 nI2 where st2: "st2 = (npv2, nI2)" by (cases st2)
    have len2: "length npv2 = n" using s2(2) by (simp add: buckets_def st2)
    from placeTriangle_buckets[OF s2(2)[unfolded st2] _ _ jT, of "vertexOf ?x2" ?x2]
      lookupVertex_valid[OF v mem(3) len2]
    obtain st3 where s3: "placeTriangle j ?x2 st2 = Inr st3"
      "buckets n cnt ?T (((?vs @ [vertexOf ?x0]) @ [vertexOf ?x1]) @ [vertexOf ?x2]) st3"
      unfolding st2 by blast
    have tk: "take (i + 3) indices = take i indices @ [?x0, ?x1, ?x2]"
    proof -
      have "take (i + 3) indices = take (Suc (Suc (Suc i))) indices" by (simp add: numeral_3_eq_3)
      also have "\<dots> = take i indices @ [indices ! i, indices ! Suc i, indices ! Suc (Suc i)]"
        using le by (simp add: take_Suc_conv_app_nth)
      finally show ?thesis .
    qed
    have b3: "buckets n cnt ?T (map vertexOf (take (i + 3) indices)) st3"
      using s3(2) by (simp add: tk)
    have step: "placeTriangles_loop indices i j st = placeTriangles_loop indices (i + 3) (j + 1) st3"
      using True by (subst placeTriangles_loop.simps) (simp add: g s1 s2 s3 bindE_def)
    have "\<exists>st'. placeTriangles_loop indices (i + 3) (j + 1) st3 = Inr st' \<and>
           buckets n cnt ?T (map vertexOf indices) st'"
      apply (rule "1.IH"[OF True])
      using s1 s2 s3 "1.prems"(1,2) m le j' b3 by (simp_all add: g)
    then show ?thesis by (simp only: step)
  qed
qed

lemma sumNormals_defined:
  assumes "\<forall>k < count vnd. \<exists>t < length npt. js_get nI (int (indexOffset vnd + k)) = Some t"
  shows "\<exists>normal. sumNormals ops npt nI vnd = Inr normal"
proof -
  define f where "f = (\<lambda>j acc.
             bindE acc (\<lambda>normal.
               case js_get nI (int (indexOffset vnd + j)) of
                 None \<Rightarrow> Inl TypeError
               | Some t \<Rightarrow>
                   if t < length npt
                   then Inr (Cartesian3_add ops normal (npt ! t))
                   else Inl TypeError))"
  have "\<And>c. c \<le> count vnd \<Longrightarrow>
      \<exists>normal. fold f [0 ..< c] (Inr (Some 0, Some 0, Some 0)) = Inr normal"
  proof -
    fix c show "c \<le> count vnd \<Longrightarrow>
      \<exists>normal. fold f [0 ..< c] (Inr (Some 0, Some 0, Some 0)) = Inr normal"
    proof (induction c)
      case 0
      then show ?case by simp
    next
      case (Suc c)
      then obtain normal where IH: "fold f [0 ..< c] (Inr (Some 0, Some 0, Some 0)) = Inr normal"
        by auto
      from assms Suc.prems obtain t where t: "t < length npt"
        "js_get nI (int (indexOffset vnd + c)) = Some t" by (meson Suc_le_lessD)
      have "f c (Inr normal) = Inr (Cartesian3_add ops normal (npt ! t))"
        unfolding f_def bindE_def by (simp only: sum.case t option.case if_True)
      then have "fold f [0 ..< Suc c] (Inr (Some 0, Some 0, Some 0)) =
                 Inr (Cartesian3_add ops normal (npt ! t))" by (simp add: IH)
      then show ?case by (rule exI)
    qed
  qed
  from this[OF le_refl] show ?thesis by (simp only: sumNormals_def f_def)
qed

lemma js_get_writeNormal:
  "js_get (writeNormal nv i3 (x, y, z)) k =
     (if k = int i3 + 2 then z else if k = int i3 + 1 then y else if k = int i3 then x
      else js_get nv k)"
  by (simp add: writeNormal_def js_get_js_set)

lemma writeNormal_other:
  assumes "v \<noteq> i"
  shows "js_get (writeNormal nv (i * 3) c) (int (v * 3)) = js_get nv (int (v * 3))"
    "js_get (writeNormal nv (i * 3) c) (int (v * 3) + 1) = js_get nv (int (v * 3) + 1)"
    "js_get (writeNormal nv (i * 3) c) (int (v * 3) + 2) = js_get nv (int (v * 3) + 2)"
proof -
  obtain x y z where c: "c = (x, y, z)" by (cases c)
  have ne: "int (v * 3) \<noteq> int (i * 3)" "int (v * 3) \<noteq> int (i * 3) + 1" "int (v * 3) \<noteq> int (i * 3) + 2"
    "int (v * 3) + 1 \<noteq> int (i * 3)" "int (v * 3) + 1 \<noteq> int (i * 3) + 2"
    "int (v * 3) + 2 \<noteq> int (i * 3)" "int (v * 3) + 2 \<noteq> int (i * 3) + 1"
    using assms by presburger+
  show "js_get (writeNormal nv (i * 3) c) (int (v * 3)) = js_get nv (int (v * 3))"
    "js_get (writeNormal nv (i * 3) c) (int (v * 3) + 1) = js_get nv (int (v * 3) + 1)"
    "js_get (writeNormal nv (i * 3) c) (int (v * 3) + 2) = js_get nv (int (v * 3) + 2)"
    using ne assms by (simp_all add: c js_get_writeNormal)
qed

lemma writeNormals_loop_unreferenced:
  assumes "\<forall>v\<in>set todo. \<forall>k < count (npv ! v).
             \<exists>t < length npt. js_get nI (int (indexOffset (npv ! v) + k)) = Some t"
    and "unreferenced_ok npv S nv"
  shows "\<exists>nv'. writeNormals_loop ops npt nI npv todo nv = Inr nv' \<and>
           unreferenced_ok npv (S \<union> set todo) nv'"
  using assms
proof (induction todo arbitrary: nv S)
  case Nil
  then show ?case by simp
next
  case (Cons i todo)
  let ?vnd = "npv ! i"
  have rest: "\<forall>v\<in>set todo. \<forall>k < count (npv ! v).
             \<exists>t < length npt. js_get nI (int (indexOffset (npv ! v) + k)) = Some t"
    using Cons.prems(1) by simp
  have keep: "\<And>c. unreferenced_ok npv (S - {i}) (writeNormal nv (i * 3) c)"
    unfolding unreferenced_ok_def
  proof (intro ballI impI)
    fix c v assume v: "v \<in> S - {i}" and z: "count (npv ! v) = 0"
    then have "v \<noteq> i" "v \<in> S" by auto
    with Cons.prems(2) z writeNormal_other[OF \<open>v \<noteq> i\<close>, of nv c]
    show "js_get (writeNormal nv (i * 3) c) (int (v * 3)) = Some 0 \<and>
          js_get (writeNormal nv (i * 3) c) (int (v * 3) + 1) = Some 0 \<and>
          js_get (writeNormal nv (i * 3) c) (int (v * 3) + 2) = Some 1"
      unfolding unreferenced_ok_def by (simp del: of_nat_mult of_nat_add)
  qed
  show ?case
  proof (cases "count ?vnd > 0")
    case True
    from Cons.prems(1) have "\<forall>k < count ?vnd.
        \<exists>t < length npt. js_get nI (int (indexOffset ?vnd + k)) = Some t" by simp
    from sumNormals_defined[OF this] obtain normal where
      sn: "sumNormals ops npt nI ?vnd = Inr normal" by blast
    let ?nv1 = "writeNormal nv (i * 3) (Cartesian3_normalize ops normal)"
    have "unreferenced_ok npv (insert i S) ?nv1"
      using keep[of "Cartesian3_normalize ops normal"] True
      unfolding unreferenced_ok_def by (metis Diff_iff insert_iff less_numeral_extra(3) singletonD)
    from Cons.IH[OF rest this] obtain nv' where
      "writeNormals_loop ops npt nI npv todo ?nv1 = Inr nv'"
      "unreferenced_ok npv (insert i S \<union> set todo) nv'" by blast
    then show ?thesis using True by (simp add: sn bindE_def Let_def)
  next
    case False
    let ?nv1 = "writeNormal nv (i * 3) (Some 0, Some 0, Some 1)"
    have own: "js_get ?nv1 (int (i * 3)) = Some 0 \<and> js_get ?nv1 (int (i * 3) + 1) = Some 0 \<and>
        js_get ?nv1 (int (i * 3) + 2) = Some 1"
      by (simp add: js_get_writeNormal del: of_nat_mult of_nat_add)
    have "unreferenced_ok npv (insert i S) ?nv1"
      unfolding unreferenced_ok_def
    proof (intro ballI impI)
      fix v assume v: "v \<in> insert i S" and z: "count (npv ! v) = 0"
      show "js_get ?nv1 (int (v * 3)) = Some 0 \<and> js_get ?nv1 (int (v * 3) + 1) = Some 0 \<and>
            js_get ?nv1 (int (v * 3) + 2) = Some 1"
      proof (cases "v = i")
        case True
        with own show ?thesis by simp
      next
        case False
        with v have "v \<in> S - {i}" by simp
        with keep[of "(Some 0, Some 0, Some 1)"] z show ?thesis
          unfolding unreferenced_ok_def by blast
      qed
    qed
    from Cons.IH[OF rest this] obtain nv' where
      "writeNormals_loop ops npt nI npv todo ?nv1 = Inr nv'"
      "unreferenced_ok npv (insert i S \<union> set todo) nv'" by blast
    then show ?thesis using False by (simp add: Let_def)
  qed
qed

lemma map_of_update_named:
  "map_of attrs k = Some a \<Longrightarrow>
   map_of (map (\<lambda>(name, a). if name = k then (name, f a) else (name, a)) attrs) k = Some (f a)"
  by (induction attrs) (auto split: if_splits)

lemma ensureNormal_lookup:
  assumes "\<forall>a. map_of attrs ''normal'' = Some a \<longrightarrow> attrValues a \<noteq> None"
  shows "\<exists>a nv. map_of (ensureNormal n attrs) ''normal'' = Some a \<and> attrValues a = Some nv"
proof (cases "map_of attrs ''normal''")
  case None
  then show ?thesis by (simp add: ensureNormal_def map_add_def)
next
  case (Some a)
  with assms obtain nv where "attrValues a = Some nv" by auto
  with Some show ?thesis by (simp add: ensureNormal_def)
qed

lemma unreferenced_vertex:
  assumes "validIndices n indices" "Some (int v) \<notin> set indices"
  shows "count_list (map vertexOf indices) v = 0"
proof -
  have "v \<notin> set (map vertexOf indices)"
  proof
    assume "v \<in> set (map vertexOf indices)"
    then obtain x where x: "x \<in> set indices" "vertexOf x = v" by auto
    with assms(1) obtain i where "x = Some i" "0 \<le> i" unfolding validIndices_def by blast
    with x have "x = Some (int v)" by (auto simp: vertexOf_def)
    with x(1) assms(2) show False by simp
  qed
  then show ?thesis by (rule count_notin)
qed

text \<open>
  Claim C9. For a TRIANGLES mesh with a position attribute of three components whose
  values have a length that is a multiple of three, and an index list of at least two
  indices, a multiple of three in number, every one of them a vertex of the mesh (the
  invariant of a Geometry), computeNormal returns the mesh with a normal attribute in which
  every vertex that does not occur in the index list has the normal \<open>(0, 0, 1)\<close>. A normal
  attribute the mesh already has is taken to hold values, as every attribute of the data
  model does.
\<close>

theorem computeNormal_unreferenced_vertex:
  assumes pos: "map_of (attributes mesh) ''position'' = Some position"
    and vals: "attrValues position = Some vertices"
    and c3: "componentsPerAttribute position = 3"
    and v3: "length vertices mod 3 = 0"
    and tri: "primitiveType mesh = TRIANGLES"
    and il: "indexList mesh = Some indices"
    and l2: "2 \<le> length indices" and l3: "length indices mod 3 = 0"
    and inrange: "\<forall>x\<in>set indices. \<exists>i. x = Some i \<and> 0 \<le> i \<and> i < int (length vertices div 3)"
    and nrm: "\<forall>a. map_of (attributes mesh) ''normal'' = Some a \<longrightarrow> attrValues a \<noteq> None"
  shows "\<exists>mesh' normal normalValues.
           computeNormal ops (Some mesh) = Inr mesh' \<and>
           map_of (attributes mesh') ''normal'' = Some normal \<and>
           attrValues normal = Some normalValues \<and>
           (\<forall>v < length vertices div 3. Some (int v) \<notin> set indices \<longrightarrow>
              js_get normalValues (int (v * 3)) = Some 0 \<and>
              js_get normalValues (int (v * 3) + 1) = Some 0 \<and>
              js_get normalValues (int (v * 3) + 2) = Some 1)"
proof -
  have valid: "validIndices (length vertices div 3) indices"
    using inrange by (simp add: validIndices_def)
  let ?n = "length vertices div 3"
  let ?T = "length indices div 3"
  let ?vs = "map vertexOf indices"
  let ?zero = "\<lparr>indexOffset = 0, count = 0, currentCount = 0\<rparr>"
  let ?npv0 = "replicate ?n ?zero"
  have "counted ?npv0 (map vertexOf (take 0 indices)) ?npv0" by (simp add: counted_refl)
  from countTriangles_loop_counted[OF valid _ l3 _ _ this, of ops vertices "[]"]
  obtain npv1 npt where A: "countTriangles_loop ops vertices indices 0 ?npv0 [] = Inr (npv1, npt)"
    and c1: "counted ?npv0 ?vs npv1" and lt: "length npt = ?T"
    by auto
  from c1 have len1: "length npv1 = ?n"
    and f1: "\<forall>v < ?n. count (npv1 ! v) = count_list ?vs v \<and> indexOffset (npv1 ! v) = 0 \<and>
        currentCount (npv1 ! v) = 0"
    by (simp_all add: counted_def)
  define cnt where "cnt = (\<lambda>u. count (npv1 ! u))"
  have b0: "buckets ?n cnt ?T (map vertexOf (take 0 indices))
              (assignOffsets npv1, replicate (length indices) None)"
    using f1 len1 by (simp add: buckets_def assignOffsets_eq cnt_def)
  from placeTriangles_loop_buckets[OF valid l3 _ _ _ b0]
  obtain st' where C: "placeTriangles_loop indices 0 0
        (assignOffsets npv1, replicate (length indices) None) = Inr st'"
    and b: "buckets ?n cnt ?T ?vs st'" by auto
  obtain npv2 nI where st': "st' = (npv2, nI)" by (cases st')
  from b have len2: "length npv2 = ?n"
    and f2: "\<forall>v < ?n. indexOffset (npv2 ! v) = offsetOf cnt v \<and> count (npv2 ! v) = cnt v \<and>
        currentCount (npv2 ! v) = count_list ?vs v"
    and s2: "\<forall>v < ?n. \<forall>k < count_list ?vs v.
        \<exists>t < ?T. js_get nI (int (offsetOf cnt v + k)) = Some t"
    by (simp_all add: buckets_def st')
  have cnt_eq: "\<And>v. v < ?n \<Longrightarrow> count (npv2 ! v) = count_list ?vs v"
    using f1 f2 by (simp add: cnt_def)
  have slots: "\<forall>v\<in>set [0 ..< ?n]. \<forall>k < count (npv2 ! v).
             \<exists>t < length npt. js_get nI (int (indexOffset (npv2 ! v) + k)) = Some t"
  proof (intro ballI allI impI)
    fix v k assume v: "v \<in> set [0 ..< ?n]" and k: "k < count (npv2 ! v)"
    then have v': "v < ?n" by simp
    with k cnt_eq have "k < count_list ?vs v" by simp
    with s2 v' obtain t where "t < ?T" "js_get nI (int (offsetOf cnt v + k)) = Some t" by blast
    moreover have "indexOffset (npv2 ! v) = offsetOf cnt v" using f2 v' by simp
    ultimately show "\<exists>t < length npt. js_get nI (int (indexOffset (npv2 ! v) + k)) = Some t"
      using lt by auto
  qed
  let ?attrs = "ensureNormal ?n (attributes mesh)"
  from ensureNormal_lookup[OF nrm] obtain a nv0 where
    a: "map_of ?attrs ''normal'' = Some a" "attrValues a = Some nv0" by blast
  have "unreferenced_ok npv2 {} nv0" by (simp add: unreferenced_ok_def)
  from writeNormals_loop_unreferenced[OF slots this, of ops]
  obtain nv' where D: "writeNormals_loop ops npt nI npv2 [0 ..< ?n] nv0 = Inr nv'"
    and u: "unreferenced_ok npv2 ({} \<union> set [0 ..< ?n]) nv'" by blast
  define mesh' where "mesh' = mesh\<lparr>attributes :=
      map (\<lambda>(name, a). if name = ''normal'' then (name, a\<lparr>attrValues := Some nv'\<rparr>)
                        else (name, a)) ?attrs\<rparr>"
  have guard: "\<not> (primitiveType mesh \<noteq> TRIANGLES \<or> length indices < 2 \<or>
      length indices mod 3 \<noteq> 0)"
    using tri l2 l3 by simp
  have res: "computeNormal ops (Some mesh) = Inr mesh'"
    unfolding computeNormal_def
    by (simp only: option.case pos vals c3 v3 il guard if_False simp_thms Let_def A bindE_def
        sum.case prod.case C st' a D mesh'_def)
  have look: "map_of (attributes mesh') ''normal'' = Some (a\<lparr>attrValues := Some nv'\<rparr>)"
    using map_of_update_named[OF a(1), of "\<lambda>a. a\<lparr>attrValues := Some nv'\<rparr>"]
    by (simp add: mesh'_def)
  have un: "\<forall>v < ?n. Some (int v) \<notin> set indices \<longrightarrow>
              js_get nv' (int (v * 3)) = Some 0 \<and>
              js_get nv' (int (v * 3) + 1) = Some 0 \<and>
              js_get nv' (int (v * 3) + 2) = Some 1"
  proof (intro allI impI)
    fix v assume v: "v < ?n" and nr: "Some (int v) \<notin> set indices"
    have "count (npv2 ! v) = 0"
      using cnt_eq[OF v] unreferenced_vertex[OF valid nr] by simp
    moreover have "v \<in> {} \<union> set [0 ..< ?n]" using v by simp
    ultimately show "js_get nv' (int (v * 3)) = Some 0 \<and>
              js_get nv' (int (v * 3) + 1) = Some 0 \<and>
              js_get nv' (int (v * 3) + 2) = Some 1"
      using u unfolding unreferenced_ok_def by blast
  qed
  have "attrValues (a\<lparr>attrValues := Some nv'\<rparr>) = Some nv'" by simp
  with res look un show ?thesis by blast
qed

theorem computeNormal_unreferenced_vertex_witness:
  "\<exists>mesh' normal normalValues.
     computeNormal realCartesian3 (Some (quadMesh (Some [Some 0, Some 1, Some 2]))) = Inr mesh' \<and>
     map_of (attributes mesh') ''normal'' = Some normal \<and>
     attrValues normal = Some normalValues \<and>
     js_get normalValues 9 = Some 0 \<and> js_get normalValues 10 = Some 0 \<and>
     js_get normalValues 11 = Some 1"
proof -
  from computeNormal_unreferenced_vertex[of "quadMesh (Some [Some 0, Some 1, Some 2])"
      "positionAttribute quadPositions" quadPositions "[Some 0, Some 1, Some 2]" realCartesian3]
  obtain mesh' normal normalValues where
    r: "computeNormal realCartesian3 (Some (quadMesh (Some [Some 0, Some 1, Some 2]))) = Inr mesh'"
      "map_of (attributes mesh') ''normal'' = Some normal"
      "attrValues normal = Some normalValues"
    and u: "\<forall>v < length quadPositions div 3. Some (int v) \<notin> set [Some 0, Some 1, Some 2] \<longrightarrow>
              js_get normalValues (int (v * 3)) = Some 0 \<and>
              js_get normalValues (int (v * 3) + 1) = Some 0 \<and>
              js_get normalValues (int (v * 3) + 2) = Some 1"
    by (simp add: quadMesh_def positionAttribute_def quadPositions_def trianglePositions_def)
      blast
  from u[rule_format, of 3]
  have "js_get normalValues 9 = Some 0 \<and> js_get normalValues 10 = Some 0 \<and>
        js_get normalValues 11 = Some 1"
    by (simp add: quadPositions_def trianglePositions_def)
  with r show ?thesis by blast
qed

text \<open>Outside the invariant of a Geometry the loop over the triangles stops: the entry of
  \<open>normalsPerVertex\<close> under an index that is no vertex is undefined, and reading its
  \<open>count\<close> is a TypeError.\<close>

lemma computeNormal_index_out_of_range:
  "computeNormal ops (Some (quadMesh (Some [Some 0, Some 1, Some 4]))) = Inl TypeError"
  by code_simp

section \<open>Properties of transformToWorldCoordinates\<close>

text \<open>
  Claim C10. For an instance whose model matrix is the identity the filter leaves the instance
  as it is and returns \<open>undefined\<close>; for any other instance it returns, whenever it
  returns, the instance itself, as the call left it.
\<close>

theorem transformToWorldCoordinates_identity_returns_undefined:
  assumes "modelMatrix inst = Matrix4_IDENTITY" and "modelMatrix other \<noteq> Matrix4_IDENTITY"
  shows "transformToWorldCoordinates ops (Some inst) = Inr (None, inst) \<and>
         (\<forall>r s. transformToWorldCoordinates ops (Some other) = Inr (r, s) \<longrightarrow> r = Some s)"
  using assms
  by (auto simp: transformToWorldCoordinates_def Matrix4_equals_def Let_def bindE_def
      split: sum.splits)

theorem transformToWorldCoordinates_identity_returns_undefined_witness:
  "modelMatrix (triangleInstance Matrix4_IDENTITY) = Matrix4_IDENTITY \<and>
   modelMatrix (triangleInstance translateX) \<noteq> Matrix4_IDENTITY \<and>
   transformToWorldCoordinates translationCollaborators (Some (triangleInstance Matrix4_IDENTITY)) =
     Inr (None, triangleInstance Matrix4_IDENTITY) \<and>
   transformToWorldCoordinates translationCollaborators (Some (triangleInstance translateX)) =
     Inr (Some \<lparr>geometry = \<lparr>attributes = [(''position'', positionAttribute
                   [Some 5, Some 0, Some 0, Some 6, Some 0, Some 0, Some 5, Some 1, Some 0])],
                 indexList = Some [Some 0, Some 1, Some 2], primitiveType = TRIANGLES,
                 boundingSphere = None\<rparr>, modelMatrix = Matrix4_IDENTITY\<rparr>,
          \<lparr>geometry = \<lparr>attributes = [(''position'', positionAttribute
                   [Some 5, Some 0, Some 0, Some 6, Some 0, Some 0, Some 5, Some 1, Some 0])],
                 indexList = Some [Some 0, Some 1, Some 2], primitiveType = TRIANGLES,
                 boundingSphere = None\<rparr>, modelMatrix = Matrix4_IDENTITY\<rparr>)"
proof -
  have h1: "modelMatrix (triangleInstance Matrix4_IDENTITY) = Matrix4_IDENTITY"
    by (simp add: triangleInstance_def)
  have h2: "modelMatrix (triangleInstance translateX) \<noteq> Matrix4_IDENTITY"
    by (simp add: triangleInstance_def translateX_def Matrix4_IDENTITY_def)
  have r: "transformToWorldCoordinates translationCollaborators (Some (triangleInstance translateX)) =
     Inr (Some \<lparr>geometry = \<lparr>attributes = [(''position'', positionAttribute
                   [Some 5, Some 0, Some 0, Some 6, Some 0, Some 0, Some 5, Some 1, Some 0])],
                 indexList = Some [Some 0, Some 1, Some 2], primitiveType = TRIANGLES,
                 boundingSphere = None\<rparr>, modelMatrix = Matrix4_IDENTITY\<rparr>,
          \<lparr>geometry = \<lparr>attributes = [(''position'', positionAttribute
                   [Some 5, Some 0, Some 0, Some 6, Some 0, Some 0, Some 5, Some 1, Some 0])],
                 indexList = Some [Some 0, Some 1, Some 2], primitiveType = TRIANGLES,
                 boundingSphere = None\<rparr>, modelMatrix = Matrix4_IDENTITY\<rparr>)"
    by code_simp
  from transformToWorldCoordinates_identity_returns_undefined[OF h1 h2, of translationCollaborators]
  show ?thesis using h1 h2 r by simp
qed

end
